theory Spec2Isabelle
  imports Main "HOL-Library.Multiset"
begin

section \<open>Data model\<close>

text \<open>
  A Go \<^verbatim>\<open>time.Time\<close> without a monotonic clock reading (what parsing a timestamp,
  \<^verbatim>\<open>time.Date\<close> and \<^verbatim>\<open>time.Unix\<close> give) is an instant and a location pointer. The
  instant is counted from January 1 of year 1, 00:00 UTC, and is negative before it; the
  location pointer is nil for UTC. The zero value \<^verbatim>\<open>time.Time{}\<close> is the instant 0 with
  the nil location. Go's \<^verbatim>\<open>==\<close> on times is the equality of the structs, instant and
  location; \<^verbatim>\<open>Before\<close>, \<^verbatim>\<open>After\<close> and \<^verbatim>\<open>Equal\<close> compare the instants only.
\<close>

record time =
  instant :: int
  loc :: "nat option"

definition zeroTime :: time where
  "zeroTime = \<lparr>instant = 0, loc = None\<rparr>"

definition utc :: "int \<Rightarrow> time" where
  "utc t = \<lparr>instant = t, loc = None\<rparr>"

definition Before :: "time \<Rightarrow> time \<Rightarrow> bool" where
  "Before t u \<longleftrightarrow> instant t < instant u"

definition After :: "time \<Rightarrow> time \<Rightarrow> bool" where
  "After t u \<longleftrightarrow> instant u < instant t"

definition Equal :: "time \<Rightarrow> time \<Rightarrow> bool" where
  "Equal t u \<longleftrightarrow> instant t = instant u"

text \<open>A Go \<^verbatim>\<open>error\<close> value, identified by its message.\<close>

datatype error = Error string

fun errorText :: "error \<Rightarrow> string" where
  "errorText (Error m) = m"

text \<open>\<^verbatim>\<open>type S3Object struct { Key, Bucket string }\<close> (fields prefixed, as
  \<^verbatim>\<open>S3VersionedObject\<close> has fields of the same names).\<close>

record S3Object =
  oKey :: string
  oBucket :: string

record S3VersionedObject =
  Key :: string
  Bucket :: string
  VersionId :: string
  RepositoryRoot :: string
  LastModified :: time

text \<open>The instant of a version's modification time.\<close>

definition stamp :: "S3VersionedObject \<Rightarrow> int" where
  "stamp v = instant (LastModified v)"

text \<open>
  An entry of \<^verbatim>\<open>ListObjectVersionsOutput.Versions\<close>: the SDK's fields are pointers, read
  through \<^verbatim>\<open>aws.ToString\<close> and \<^verbatim>\<open>aws.ToTime\<close>, which turn a nil pointer into the zero
  value of the type.
\<close>

record ObjectVersion =
  vKey :: "string option"
  vVersionId :: "string option"
  vLastModified :: "time option"

definition ToString :: "string option \<Rightarrow> string" where
  "ToString p = (case p of None \<Rightarrow> [] | Some s \<Rightarrow> s)"

definition ToTime :: "time option \<Rightarrow> time" where
  "ToTime p = (case p of None \<Rightarrow> zeroTime | Some t \<Rightarrow> t)"

text \<open>\<^verbatim>\<open>object.Signature\<close> and the commits of the repository's history. \<open>Staged\<close> lists the
  paths added to the index since the previous commit.\<close>

record Signature =
  Name :: string
  Email :: string
  When :: time

record Commit =
  Message :: string
  Author :: Signature
  Staged :: "string list"

text \<open>What the program prints: a log or format call with its format string (line
  breaks and tabs left out) and its arguments, \<^verbatim>\<open>errorMessage\<close>, and the usage text.\<close>

datatype arg = AStr string | ANat nat | ATime time | AErr error

datatype outmsg = Printf string "arg list" | Println arg | ErrorMessage arg | Usage

text \<open>The calls the program makes to the storage service, the configuration loader and
  the repository opener, in order.\<close>

datatype call =
    CallListObjectsV2 string
  | CallListObjectVersions string string
  | CallGetObject string string string
  | CallLoadDefaultConfig "(string \<times> string) option"
  | CallPlainOpen string
  | CallPlainInit string

text \<open>
  The state outside the program: the directories and files of the local file system, the
  paths that hold a repository, the index and the history of the repository the run works
  on, and the two traces above.
\<close>

record world =
  fsDirs :: "string set"
  fsFiles :: "string \<rightharpoonup> char list"
  repos :: "string set"
  index :: "string list"
  commits :: "Commit list"
  out :: "outmsg list"
  calls :: "call list"

text \<open>
  The collaborators the program only calls. The storage bucket is a snapshot: a listing or
  a fetch is a function of its arguments; a fetch gives what \<^verbatim>\<open>io.ReadAll\<close> returns for
  the body, the bytes read and the read error if any. The file system and the repository
  fail when their oracle gives an error, which may depend on the state; \<^verbatim>\<open>file.Write\<close>
  then reports how many bytes it wrote. \<^verbatim>\<open>sort.Slice\<close>, \<^verbatim>\<open>filepath.Abs\<close>,
  \<^verbatim>\<open>filepath.Dir\<close>, \<^verbatim>\<open>filepath.Join\<close> and the formatting of a time are library
  functions taken as they are.
\<close>

record env =
  s3_ListObjectsV2 :: "string \<Rightarrow> error + string option list"
  s3_ListObjectVersions :: "string \<Rightarrow> string \<Rightarrow> error + ObjectVersion list"
  s3_GetObject :: "string \<Rightarrow> string \<Rightarrow> string \<Rightarrow> error + (char list \<times> error option)"
  sort_Slice :: "(S3VersionedObject \<Rightarrow> S3VersionedObject \<Rightarrow> bool) \<Rightarrow>
    S3VersionedObject list \<Rightarrow> S3VersionedObject list"
  filepath_Abs :: "string \<Rightarrow> error + string"
  filepath_Dir :: "string \<Rightarrow> string"
  filepath_Join :: "string \<Rightarrow> string \<Rightarrow> string"
  time_String :: "time \<Rightarrow> string"
  os_MkdirAll_err :: "world \<Rightarrow> string \<Rightarrow> error option"
  os_Create_err :: "world \<Rightarrow> string \<Rightarrow> error option"
  file_Write_err :: "world \<Rightarrow> string \<Rightarrow> char list \<Rightarrow> (nat \<times> error) option"
  tree_Add_err :: "world \<Rightarrow> string \<Rightarrow> error option"
  tree_Commit_err :: "world \<Rightarrow> string \<Rightarrow> Signature \<Rightarrow> error option"
  repo_CommitObject_err :: "world \<Rightarrow> nat \<Rightarrow> error option"
  git_PlainInit_err :: "world \<Rightarrow> string \<Rightarrow> error option"
  repo_Worktree_err :: "world \<Rightarrow> string \<Rightarrow> error option"
  config_Load_err :: "(string \<times> string) option \<Rightarrow> error option"

definition say :: "outmsg list \<Rightarrow> world \<Rightarrow> world" where
  "say msgs w = w\<lparr>out := out w @ msgs\<rparr>"

definition record_call :: "call \<Rightarrow> world \<Rightarrow> world" where
  "record_call c w = w\<lparr>calls := calls w @ [c]\<rparr>"

section \<open>The program\<close>

text \<open>\<^verbatim>\<open>strings.Join\<close>.\<close>

fun strings_Join :: "string list \<Rightarrow> string \<Rightarrow> string" where
  "strings_Join [] sep = []"
| "strings_Join [x] sep = x"
| "strings_Join (x # y # ys) sep = x @ sep @ strings_Join (y # ys) sep"

subsection \<open>Paths of a version\<close>

definition toLocalPath :: "env \<Rightarrow> S3VersionedObject \<Rightarrow> world \<Rightarrow> string \<times> world" where
  "toLocalPath e svo w =
     (let path = strings_Join [RepositoryRoot svo, Bucket svo, Key svo] ''/'' in
      case filepath_Abs e path of
        Inl err \<Rightarrow>
          (''Error: '' @ errorText err,
           say [Printf ''Couldn't create absolute path for %s'' [AStr path], Println (AErr err)] w)
      | Inr absFilename \<Rightarrow> (absFilename, w))"

definition toBasenamePath :: "S3VersionedObject \<Rightarrow> string" where
  "toBasenamePath svo = Key svo"

subsection \<open>Listing objects and versions\<close>

definition queryS3Bucket :: "env \<Rightarrow> string \<Rightarrow> world \<Rightarrow> (S3Object list \<times> error option) \<times> world" where
  "queryS3Bucket e bucketName w =
     (let w1 = record_call (CallListObjectsV2 bucketName) w in
      case s3_ListObjectsV2 e bucketName of
        Inl err \<Rightarrow>
          (([], Some err),
           say [Printf ''ListObjectsV2 failed while querying: %s'' [AStr bucketName],
                ErrorMessage (AErr err)] w1)
      | Inr contents \<Rightarrow>
          ((map (\<lambda>k. \<lparr>oKey = ToString k, oBucket = bucketName\<rparr>) contents, None), w1))"

definition versionOf :: "string \<Rightarrow> S3Object \<Rightarrow> ObjectVersion \<Rightarrow> S3VersionedObject" where
  "versionOf repoPath s3obj vers =
     \<lparr>Key = ToString (vKey vers), Bucket = oBucket s3obj,
      VersionId = ToString (vVersionId vers), RepositoryRoot = repoPath,
      LastModified = ToTime (vLastModified vers)\<rparr>"

text \<open>The loop of \<^verbatim>\<open>queryS3Versions\<close> over the objects, with the slice it appends to.\<close>

fun listVersions ::
  "env \<Rightarrow> string \<Rightarrow> S3Object list \<Rightarrow> S3VersionedObject list \<Rightarrow> world \<Rightarrow>
   S3VersionedObject list \<times> world" where
  "listVersions e repoPath [] s3Objects w = (s3Objects, w)"
| "listVersions e repoPath (s3obj # objects) s3Objects w =
     (let w1 = record_call (CallListObjectVersions (oBucket s3obj) (oKey s3obj)) w in
      case s3_ListObjectVersions e (oBucket s3obj) (oKey s3obj) of
        Inl err \<Rightarrow>
          listVersions e repoPath objects s3Objects
            (say [Println (AStr ''Couldn't load default configuration. Have you set up your AWS account?''),
                  ErrorMessage (AErr err)] w1)
      | Inr versions \<Rightarrow>
          listVersions e repoPath objects
            (s3Objects @ map (versionOf repoPath s3obj) versions) w1)"

definition lessLastModified :: "S3VersionedObject \<Rightarrow> S3VersionedObject \<Rightarrow> bool" where
  "lessLastModified a b = Before (LastModified a) (LastModified b)"

definition queryS3Versions ::
  "env \<Rightarrow> S3Object list \<Rightarrow> string \<Rightarrow> world \<Rightarrow>
   (S3VersionedObject list \<times> error option) \<times> world" where
  "queryS3Versions e objects repoPath w =
     (case listVersions e repoPath objects [] w of
        (s3Objects, w1) \<Rightarrow> ((sort_Slice e lessLastModified s3Objects, None), w1))"

subsection \<open>Materializing one version\<close>

definition downloadFile :: "env \<Rightarrow> S3VersionedObject \<Rightarrow> world \<Rightarrow> error option \<times> world" where
  "downloadFile e object w =
     (let w1 = record_call (CallGetObject (Bucket object) (Key object) (VersionId object)) w in
      case s3_GetObject e (Bucket object) (Key object) (VersionId object) of
        Inl err \<Rightarrow>
          (Some err,
           say [Printf ''Couldn't get object %v:%v@%v.''
                  [AStr (Bucket object), AStr (Key object), AStr (VersionId object)],
                ErrorMessage (AErr err)] w1)
      | Inr result \<Rightarrow>
          (case toLocalPath e object w1 of (filename, w2) \<Rightarrow>
            (let dirname = filepath_Dir e filename;
                 missing = (dirname \<notin> fsDirs w2) in
             case (if missing then os_MkdirAll_err e w2 dirname else None) of
               Some err \<Rightarrow>
                 (Some err,
                  say [Printf ''Couldn't create file %v.'' [AStr filename], ErrorMessage (AErr err)] w2)
             | None \<Rightarrow>
                 (let w3 = (if missing then w2\<lparr>fsDirs := insert dirname (fsDirs w2)\<rparr> else w2) in
                  case os_Create_err e w3 filename of
                    Some err \<Rightarrow>
                      (Some err,
                       say [Printf ''Couldn't create file %v.'' [AStr filename],
                            ErrorMessage (AErr err)] w3)
                  | None \<Rightarrow>
                      (let w4 = w3\<lparr>fsFiles := (fsFiles w3)(filename \<mapsto> [])\<rparr>;
                           body = fst result;
                           w5 = (case snd result of
                                   Some err \<Rightarrow>
                                     say [Printf ''Couldn't read object body from %v@%v.''
                                            [AStr (Key object), AStr (VersionId object)],
                                          ErrorMessage (AErr err)] w4
                                 | None \<Rightarrow> w4) in
                       case file_Write_err e w5 filename body of
                         Some (n, err) \<Rightarrow>
                           (Some err, w5\<lparr>fsFiles := (fsFiles w5)(filename \<mapsto> take n body)\<rparr>)
                       | None \<Rightarrow>
                           (None, w5\<lparr>fsFiles := (fsFiles w5)(filename \<mapsto> body)\<rparr>))))))"

subsection \<open>Committing one buffer of versions\<close>

text \<open>The loop of \<^verbatim>\<open>applyGitChanges\<close> over the objects, with its two variables
  \<^verbatim>\<open>files\<close> (here \<open>fileNames\<close>) and \<^verbatim>\<open>commitDate\<close>.\<close>

fun stageObjects ::
  "env \<Rightarrow> S3VersionedObject list \<Rightarrow> string list \<Rightarrow> time \<Rightarrow> world \<Rightarrow>
   (error + string list \<times> time) \<times> world" where
  "stageObjects e [] fileNames commitDate w = (Inr (fileNames, commitDate), w)"
| "stageObjects e (object # objects) fileNames commitDate w =
     (case downloadFile e object w of
        (Some err, w1) \<Rightarrow>
          (case toLocalPath e object w1 of (p, w2) \<Rightarrow>
            (Inl err,
             say [Printf ''Error downloading object %s:%s@%s to %s''
                    [AStr (Bucket object), AStr (Key object), AStr (VersionId object), AStr p],
                  ErrorMessage (AErr err)] w2))
      | (None, w1) \<Rightarrow>
          (case toLocalPath e object w1 of (p, w2) \<Rightarrow>
            (case tree_Add_err e w2 (toBasenamePath object) of
               Some err \<Rightarrow>
                 (case toLocalPath e object w2 of (p', w3) \<Rightarrow>
                   (Inl err,
                    say [Printf ''Error staging object %s'' [AStr p'], ErrorMessage (AErr err)] w3))
             | None \<Rightarrow>
                 stageObjects e objects (fileNames @ [p]) (LastModified object)
                   (w2\<lparr>index := index w2 @ [toBasenamePath object]\<rparr>))))"

definition commitMsg :: "env \<Rightarrow> time \<Rightarrow> string" where
  "commitMsg e commitDate = ''Modification on '' @ time_String e commitDate"

definition author :: "time \<Rightarrow> Signature" where
  "author commitDate =
     \<lparr>Name = ''s3-versions-to-git'', Email = ''ahughesalex@gmail.com'', When = commitDate\<rparr>"

text \<open>The second half of \<^verbatim>\<open>applyGitChanges\<close>: \<^verbatim>\<open>Tree.Commit\<close> creates the commit from the
  index and moves the history to it, and \<^verbatim>\<open>Repository.CommitObject\<close> then looks the new
  commit up by its hash (here its position in the history).\<close>

definition commitStaged :: "env \<Rightarrow> string list \<Rightarrow> time \<Rightarrow> world \<Rightarrow> error option \<times> world" where
  "commitStaged e fileNames commitDate w1 =
     (case tree_Commit_err e w1 (commitMsg e commitDate) (author commitDate) of
        Some err \<Rightarrow>
          (Some err, say [Printf ''Error comitting objects to stage'' [], ErrorMessage (AErr err)] w1)
      | None \<Rightarrow>
          (let commit = length (commits w1);
               w2 = w1\<lparr>commits := commits w1 @
                         [\<lparr>Message = commitMsg e commitDate, Author = author commitDate,
                           Staged = index w1\<rparr>],
                       index := []\<rparr> in
           case repo_CommitObject_err e w2 commit of
             Some err \<Rightarrow>
               (Some err,
                say [Printf ''Error comitting objects to repo'' [], ErrorMessage (AErr err)] w2)
           | None \<Rightarrow>
               (None,
                say [Printf ''Successfully applied commit with the following files:%s''
                       [AStr (strings_Join fileNames [CHR 0x0A, CHR 0x09])]] w2)))"

definition applyGitChanges :: "env \<Rightarrow> S3VersionedObject list \<Rightarrow> world \<Rightarrow> error option \<times> world" where
  "applyGitChanges e objects w =
     (case stageObjects e objects [] zeroTime w of
        (Inl err, w1) \<Rightarrow> (Some err, w1)
      | (Inr (fileNames, commitDate), w1) \<Rightarrow> commitStaged e fileNames commitDate w1)"

subsection \<open>Replaying the sorted versions\<close>

text \<open>How the loop of \<^verbatim>\<open>replayS3Changes\<close> ends: by its \<^verbatim>\<open>return\<close> after a failed
  \<^verbatim>\<open>applyGitChanges\<close>, or at the end of the input, with the values of \<^verbatim>\<open>currentDate\<close> and
  \<^verbatim>\<open>objectModifications\<close> it then holds.\<close>

datatype loop_end = Returned | Exhausted time "S3VersionedObject list"

text \<open>The loop, one record of the input per step. Its first test,
  \<^verbatim>\<open>currentDate == time.Time{}\<close>, is Go's equality of structs: the instant and the location
  of \<^verbatim>\<open>currentDate\<close> are those of the zero value. Here it is the equality of the records.
  The second test, \<^verbatim>\<open>After\<close>, compares the instants.\<close>

fun replayLoop ::
  "env \<Rightarrow> S3VersionedObject list \<Rightarrow> time \<Rightarrow> S3VersionedObject list \<Rightarrow> world \<Rightarrow>
   loop_end \<times> world" where
  "replayLoop e [] currentDate objectModifications w =
     (Exhausted currentDate objectModifications, w)"
| "replayLoop e (version # versions) currentDate objectModifications w =
     (let currentDate = (if currentDate = zeroTime then LastModified version else currentDate) in
      if After (LastModified version) currentDate then
        (case applyGitChanges e objectModifications w of
           (Some err, w1) \<Rightarrow>
             (Returned,
              say [Printf ''Error applying Git changes for %d objects''
                     [ANat (length objectModifications)],
                   ErrorMessage (AErr err)] w1)
         | (None, w1) \<Rightarrow> replayLoop e versions (LastModified version) [version] w1)
      else replayLoop e versions currentDate (objectModifications @ [version]) w)"

definition replayS3Changes :: "env \<Rightarrow> S3VersionedObject list \<Rightarrow> world \<Rightarrow> world" where
  "replayS3Changes e versions w = snd (replayLoop e versions zeroTime [] w)"

subsection \<open>The command line\<close>

record flags =
  bucketFlag :: string
  outputFlag :: string
  profileFlag :: string
  regionFlag :: string
  helpFlag :: bool

definition getS3Client :: "env \<Rightarrow> string \<Rightarrow> string \<Rightarrow> world \<Rightarrow> error option \<times> world" where
  "getS3Client e profile region w =
     (let opts = (if profile \<noteq> [] then Some (profile, region) else None);
          w1 = record_call (CallLoadDefaultConfig opts) w in
      case config_Load_err e opts of
        Some err \<Rightarrow>
          (Some err,
           say [Println (AStr ''Couldn't load default configuration. Have you set up your AWS account?''),
                ErrorMessage (AErr err)] w1)
      | None \<Rightarrow> (None, w1))"

text \<open>The \<^verbatim>\<open>return\<close> statements of \<^verbatim>\<open>main\<close>, in the order of the source, and its end.\<close>

datatype main_return =
    ReturnHelp
  | ReturnNoBucket
  | ReturnNoOutput
  | ReturnMkdirFailed
  | ReturnInitFailed
  | ReturnWorktreeFailed
  | ReturnClientFailed
  | ReturnEnd

text \<open>The last three statements of \<^verbatim>\<open>main\<close>: the error of \<^verbatim>\<open>queryS3Bucket\<close> is assigned
  and then overwritten by that of \<^verbatim>\<open>queryS3Versions\<close>, which is the one tested.\<close>

definition runPipeline :: "env \<Rightarrow> string \<Rightarrow> string \<Rightarrow> world \<Rightarrow> world" where
  "runPipeline e bucket outputDir w =
     (case queryS3Bucket e bucket w of
        ((rawObjects, err), w1) \<Rightarrow>
          (case queryS3Versions e rawObjects outputDir w1 of
             ((sortedVersions, err), w2) \<Rightarrow>
               (let w3 = (case err of
                            Some x \<Rightarrow>
                              say [Println (AStr ''Error getting versions of S3 Objects''),
                                   ErrorMessage (AErr x)] w2
                          | None \<Rightarrow> w2) in
                replayS3Changes e sortedVersions w3)))"

definition main :: "env \<Rightarrow> flags \<Rightarrow> world \<Rightarrow> main_return \<times> world" where
  "main e fl w =
     (if helpFlag fl then (ReturnHelp, say [Usage] w)
      else if length (bucketFlag fl) = 0 then
        (ReturnNoBucket,
         say [Usage, ErrorMessage (AStr ''Error: Please provide an S3 bucket'')] w)
      else
        (case (if length (outputFlag fl) = 0 then filepath_Abs e [] else Inr (outputFlag fl)) of
           Inl err \<Rightarrow>
             (ReturnNoOutput,
              say [ErrorMessage (AStr ''Error: Please provide an output directory'')] w)
         | Inr outputDir \<Rightarrow>
             (let repoPath = filepath_Join e outputDir (bucketFlag fl);
                  missing = (repoPath \<notin> fsDirs w) in
              case (if missing then os_MkdirAll_err e w repoPath else None) of
                Some err \<Rightarrow>
                  (ReturnMkdirFailed,
                   say [Printf ''Unable to create directories %s'' [AStr repoPath],
                        ErrorMessage (AErr err)] w)
              | None \<Rightarrow>
                  (let w1 = (if missing then w\<lparr>fsDirs := insert repoPath (fsDirs w)\<rparr> else w);
                       w2 = record_call (CallPlainOpen repoPath) w1;
                       opened = (repoPath \<in> repos w2);
                       w3 = (if opened then w2 else record_call (CallPlainInit repoPath) w2) in
                   case (if opened then None else git_PlainInit_err e w3 repoPath) of
                     Some err \<Rightarrow>
                       (ReturnInitFailed,
                        say [Printf ''Error unable to git init in the %s folder'' [AStr repoPath],
                             ErrorMessage (AErr err)] w3)
                   | None \<Rightarrow>
                       (let w4 = (if opened then w3
                                  else w3\<lparr>repos := insert repoPath (repos w3),
                                          index := [], commits := []\<rparr>) in
                        case repo_Worktree_err e w4 repoPath of
                          Some err \<Rightarrow>
                            (ReturnWorktreeFailed,
                             say [Printf ''Error unable to initialize the git worktree %s folder''
                                    [AStr repoPath],
                                  ErrorMessage (AErr err)] w4)
                        | None \<Rightarrow>
                            (case getS3Client e (profileFlag fl) (regionFlag fl) w4 of
                               (Some err, w5) \<Rightarrow> (ReturnClientFailed, w5)
                             | (None, w5) \<Rightarrow>
                                 (ReturnEnd, runPipeline e (bucketFlag fl) outputDir w5)))))))"

section \<open>The buffers of the replay loop\<close>

text \<open>
  The loop of \<^verbatim>\<open>replayS3Changes\<close> with the call of \<^verbatim>\<open>applyGitChanges\<close> taken out: the
  buffers it hands over when no call fails, each with the value of \<^verbatim>\<open>currentDate\<close> at that
  point (its boundary), and the values of \<^verbatim>\<open>currentDate\<close> and \<^verbatim>\<open>objectModifications\<close>
  when the input is exhausted.
\<close>

fun flushes ::
  "S3VersionedObject list \<Rightarrow> time \<Rightarrow> S3VersionedObject list \<Rightarrow>
   (time \<times> S3VersionedObject list) list \<times> time \<times> S3VersionedObject list" where
  "flushes [] currentDate objectModifications = ([], currentDate, objectModifications)"
| "flushes (version # versions) currentDate objectModifications =
     (let currentDate = (if currentDate = zeroTime then LastModified version else currentDate) in
      if After (LastModified version) currentDate then
        (case flushes versions (LastModified version) [version] of
           (gs, rest) \<Rightarrow> ((currentDate, objectModifications) # gs, rest))
      else flushes versions currentDate (objectModifications @ [version]))"

text \<open>Handing a list of buffers to \<^verbatim>\<open>applyGitChanges\<close> one after the other, as the loop
  does: the first failure is reported and ends the run.\<close>

fun applyAll :: "env \<Rightarrow> S3VersionedObject list list \<Rightarrow> world \<Rightarrow> bool \<times> world" where
  "applyAll e [] w = (True, w)"
| "applyAll e (g # gs) w =
     (case applyGitChanges e g w of
        (Some err, w1) \<Rightarrow>
          (False,
           say [Printf ''Error applying Git changes for %d objects'' [ANat (length g)],
                ErrorMessage (AErr err)] w1)
      | (None, w1) \<Rightarrow> applyAll e gs w1)"

text \<open>How a run of the loop reads off the buffers: it ends by \<^verbatim>\<open>return\<close> when a call
  failed, and at the end of the input otherwise.\<close>

definition loopResult ::
  "(time \<times> S3VersionedObject list) list \<times> time \<times> S3VersionedObject list \<Rightarrow> bool \<times> world \<Rightarrow>
   loop_end \<times> world" where
  "loopResult fl r =
     (if fst r then (Exhausted (fst (snd fl)) (snd (snd fl)), snd r) else (Returned, snd r))"

text \<open>The value of \<^verbatim>\<open>commitDate\<close> after the staging loop over \<open>objs\<close>, started at \<open>d\<close>, and
  the commit that \<^verbatim>\<open>applyGitChanges\<close> creates for a buffer when the index held \<open>idx\<close>.\<close>

definition dateOf :: "time \<Rightarrow> S3VersionedObject list \<Rightarrow> time" where
  "dateOf d objs = (if objs = [] then d else LastModified (last objs))"

definition commitOf :: "env \<Rightarrow> string list \<Rightarrow> S3VersionedObject list \<Rightarrow> Commit" where
  "commitOf e idx g =
     \<lparr>Message = commitMsg e (dateOf zeroTime g), Author = author (dateOf zeroTime g),
      Staged = idx @ map toBasenamePath g\<rparr>"

fun commitsFor :: "env \<Rightarrow> string list \<Rightarrow> S3VersionedObject list list \<Rightarrow> Commit list" where
  "commitsFor e idx [] = []"
| "commitsFor e idx (g # gs) = commitOf e idx g # commitsFor e [] gs"

text \<open>The commits a run added to the history it started from.\<close>

definition newCommits :: "world \<Rightarrow> world \<Rightarrow> Commit list" where
  "newCommits w w' = drop (length (commits w)) (commits w')"

text \<open>The failures of \<^verbatim>\<open>applyGitChanges\<close> before a commit exists: \<^verbatim>\<open>downloadFile\<close> or
  \<^verbatim>\<open>Tree.Add\<close> returns an error for a member of the buffer, or \<^verbatim>\<open>Tree.Commit\<close> does.\<close>

definition failsBeforeCommit :: "env \<Rightarrow> S3VersionedObject list \<Rightarrow> world \<Rightarrow> bool" where
  "failsBeforeCommit e objects w =
     (case stageObjects e objects [] zeroTime w of
        (Inl err, w1) \<Rightarrow> True
      | (Inr (fileNames, commitDate), w1) \<Rightarrow>
          tree_Commit_err e w1 (commitMsg e commitDate) (author commitDate) \<noteq> None)"

text \<open>All the buffers the scan forms, the pending one at the end of the input last, and
  for each position of the input the number of the buffer it lands in.\<close>

definition buffersOf :: "S3VersionedObject list \<Rightarrow> (time \<times> S3VersionedObject list) list" where
  "buffersOf vs = (case flushes vs zeroTime [] of (gs, rest) \<Rightarrow> gs @ [rest])"

fun groupTags :: "nat \<Rightarrow> 'a list list \<Rightarrow> nat list" where
  "groupTags n [] = []"
| "groupTags n (g # gs) = replicate (length g) n @ groupTags (Suc n) gs"

definition bufferIndex :: "S3VersionedObject list \<Rightarrow> nat list" where
  "bufferIndex vs = groupTags 0 (map snd (buffersOf vs))"

text \<open>
  The documented contract of \<^verbatim>\<open>sort.Slice\<close>, relative to the comparison it is given.
  The comparison must describe an ordering: nothing is less than itself, and both "less"
  and "not less" are transitive. The slice is then rearranged so that no element is less
  than one before it. The documentation adds that the sort is not guaranteed to be stable:
  equal elements may be reversed from their original order.
\<close>

definition lessRequirement :: "('a \<Rightarrow> 'a \<Rightarrow> bool) \<Rightarrow> bool" where
  "lessRequirement lt \<longleftrightarrow>
     (\<forall>a. \<not> lt a a) \<and>
     (\<forall>a b c. lt a b \<and> lt b c \<longrightarrow> lt a c) \<and>
     (\<forall>a b c. \<not> lt a b \<and> \<not> lt b c \<longrightarrow> \<not> lt a c)"

definition sortedBy :: "('a \<Rightarrow> 'a \<Rightarrow> bool) \<Rightarrow> 'a list \<Rightarrow> bool" where
  "sortedBy lt ys \<longleftrightarrow> sorted_wrt (\<lambda>a b. \<not> lt b a) ys"

definition sortsFor ::
  "env \<Rightarrow> (S3VersionedObject \<Rightarrow> S3VersionedObject \<Rightarrow> bool) \<Rightarrow> bool" where
  "sortsFor e lt \<longleftrightarrow>
     (\<forall>xs. mset (sort_Slice e lt xs) = mset xs \<and> sortedBy lt (sort_Slice e lt xs))"

definition sortSliceContract :: "env \<Rightarrow> bool" where
  "sortSliceContract e \<longleftrightarrow> (\<forall>lt. lessRequirement lt \<longrightarrow> sortsFor e lt)"

text \<open>The versions the listing of one object contributes: none when the call fails.\<close>

definition versionsFor :: "env \<Rightarrow> string \<Rightarrow> S3Object \<Rightarrow> S3VersionedObject list" where
  "versionsFor e repoPath s3obj =
     (case s3_ListObjectVersions e (oBucket s3obj) (oKey s3obj) of
        Inl err \<Rightarrow> []
      | Inr versions \<Rightarrow> map (versionOf repoPath s3obj) versions)"

definition listingLog :: "env \<Rightarrow> S3Object \<Rightarrow> outmsg list" where
  "listingLog e s3obj =
     (case s3_ListObjectVersions e (oBucket s3obj) (oKey s3obj) of
        Inl err \<Rightarrow>
          [Println (AStr ''Couldn't load default configuration. Have you set up your AWS account?''),
           ErrorMessage (AErr err)]
      | Inr versions \<Rightarrow> [])"

section \<open>The sorting routine of the library\<close>

text \<open>
  \<^verbatim>\<open>sort.Slice\<close> as the Go library implements it since release 1.19 (pattern-defeating
  quicksort, \<^verbatim>\<open>zsortfunc.go\<close>), function by function. The slice is a list, an index an
  \<^verbatim>\<open>int\<close> read as a natural number where the code keeps it non-negative and as an integer
  where it can pass below the first index (\<open>j\<close> of the partition scans). \<^verbatim>\<open>data.Less(i, j)\<close>
  calls the comparison of the caller on the elements now at \<open>i\<close> and \<open>j\<close>, and
  \<^verbatim>\<open>data.Swap\<close> exchanges two elements.
\<close>

definition dataLess :: "('a \<Rightarrow> 'a \<Rightarrow> bool) \<Rightarrow> 'a list \<Rightarrow> nat \<Rightarrow> nat \<Rightarrow> bool" where
  "dataLess lt xs i j = lt (xs ! i) (xs ! j)"

definition dataSwap :: "nat \<Rightarrow> nat \<Rightarrow> 'a list \<Rightarrow> 'a list" where
  "dataSwap i j xs = xs[i := xs ! j, j := xs ! i]"

text \<open>\<^verbatim>\<open>insertionSort_func\<close>: the inner loop moves the element at \<open>j\<close> down while it is
  less than its predecessor; the outer loop does so for \<open>i = a + 1, ..., b - 1\<close>.\<close>

function insertDown :: "('a \<Rightarrow> 'a \<Rightarrow> bool) \<Rightarrow> nat \<Rightarrow> nat \<Rightarrow> 'a list \<Rightarrow> 'a list" where
  "insertDown lt a j xs =
     (if j > a \<and> dataLess lt xs j (j - 1) then insertDown lt a (j - 1) (dataSwap j (j - 1) xs)
      else xs)"
  by pat_completeness auto
termination
  by (relation "measure (\<lambda>(lt, a, j, xs). j)") auto

declare insertDown.simps [simp del]

function insertionLoop :: "('a \<Rightarrow> 'a \<Rightarrow> bool) \<Rightarrow> nat \<Rightarrow> nat \<Rightarrow> nat \<Rightarrow> 'a list \<Rightarrow> 'a list" where
  "insertionLoop lt a b i xs =
     (if i < b then insertionLoop lt a b (i + 1) (insertDown lt a i xs) else xs)"
  by pat_completeness auto
termination
  by (relation "measure (\<lambda>(lt, a, b, i, xs). b - i)") auto

declare insertionLoop.simps [simp del]

definition insertionSort_func :: "('a \<Rightarrow> 'a \<Rightarrow> bool) \<Rightarrow> nat \<Rightarrow> nat \<Rightarrow> 'a list \<Rightarrow> 'a list" where
  "insertionSort_func lt a b xs = insertionLoop lt a b (a + 1) xs"

text \<open>\<^verbatim>\<open>siftDown_func\<close> and \<^verbatim>\<open>heapSort_func\<close>, the fallback when the depth limit is used up.\<close>

function siftDown_func :: "('a \<Rightarrow> 'a \<Rightarrow> bool) \<Rightarrow> nat \<Rightarrow> nat \<Rightarrow> nat \<Rightarrow> 'a list \<Rightarrow> 'a list" where
  "siftDown_func lt root hi first xs =
     (let child = 2 * root + 1 in
      if child \<ge> hi then xs
      else
        (let child = (if child + 1 < hi \<and> dataLess lt xs (first + child) (first + child + 1)
                      then child + 1 else child) in
         if \<not> dataLess lt xs (first + root) (first + child) then xs
         else siftDown_func lt child hi first (dataSwap (first + root) (first + child) xs)))"
  by pat_completeness auto
termination
  by (relation "measure (\<lambda>(lt, root, hi, first, xs). hi - root)")
     (auto simp: Let_def split: if_splits)

declare siftDown_func.simps [simp del]

definition heapSort_func :: "('a \<Rightarrow> 'a \<Rightarrow> bool) \<Rightarrow> nat \<Rightarrow> nat \<Rightarrow> 'a list \<Rightarrow> 'a list" where
  "heapSort_func lt a b xs =
     (let first = a; lo = 0; hi = b - a;
          built = fold (\<lambda>i ys. siftDown_func lt i hi first ys) (rev [0..<Suc ((hi - 1) div 2)]) xs
      in fold (\<lambda>i ys. siftDown_func lt lo i first (dataSwap first (first + i) ys)) (rev [0..<hi]) built)"

text \<open>\<^verbatim>\<open>reverseRange_func\<close>.\<close>

function reverseLoop :: "nat \<Rightarrow> int \<Rightarrow> 'a list \<Rightarrow> 'a list" where
  "reverseLoop i j xs =
     (if int i < j then reverseLoop (i + 1) (j - 1) (dataSwap i (nat j) xs) else xs)"
  by pat_completeness auto
termination
  by (relation "measure (\<lambda>(i, j, xs). nat (j - int i))") auto

declare reverseLoop.simps [simp del]

definition reverseRange_func :: "nat \<Rightarrow> nat \<Rightarrow> 'a list \<Rightarrow> 'a list" where
  "reverseRange_func a b xs = reverseLoop a (int b - 1) xs"

text \<open>\<^verbatim>\<open>choosePivot_func\<close> with \<^verbatim>\<open>order2_func\<close>, \<^verbatim>\<open>median_func\<close> and \<^verbatim>\<open>medianAdjacent_func\<close>;
  the counter \<^verbatim>\<open>*swaps\<close> is passed and returned.\<close>

datatype sortedHint = unknownHint | increasingHint | decreasingHint

definition order2_func ::
  "('a \<Rightarrow> 'a \<Rightarrow> bool) \<Rightarrow> 'a list \<Rightarrow> nat \<Rightarrow> nat \<Rightarrow> nat \<Rightarrow> nat \<times> nat \<times> nat" where
  "order2_func lt xs a b swaps =
     (if dataLess lt xs b a then (b, a, swaps + 1) else (a, b, swaps))"

definition median_func ::
  "('a \<Rightarrow> 'a \<Rightarrow> bool) \<Rightarrow> 'a list \<Rightarrow> nat \<Rightarrow> nat \<Rightarrow> nat \<Rightarrow> nat \<Rightarrow> nat \<times> nat" where
  "median_func lt xs a b c swaps =
     (case order2_func lt xs a b swaps of (a, b, swaps) \<Rightarrow>
      case order2_func lt xs b c swaps of (b, c, swaps) \<Rightarrow>
      case order2_func lt xs a b swaps of (a, b, swaps) \<Rightarrow> (b, swaps))"

definition medianAdjacent_func ::
  "('a \<Rightarrow> 'a \<Rightarrow> bool) \<Rightarrow> 'a list \<Rightarrow> nat \<Rightarrow> nat \<Rightarrow> nat \<times> nat" where
  "medianAdjacent_func lt xs a swaps = median_func lt xs (a - 1) a (a + 1) swaps"

definition choosePivot_func ::
  "('a \<Rightarrow> 'a \<Rightarrow> bool) \<Rightarrow> nat \<Rightarrow> nat \<Rightarrow> 'a list \<Rightarrow> nat \<times> sortedHint" where
  "choosePivot_func lt a b xs =
     (let shortestNinther = 50; maxSwaps = 4 * 3;
          l = b - a;
          swaps = 0;
          i = a + l div 4 * 1;
          j = a + l div 4 * 2;
          k = a + l div 4 * 3;
          (j, swaps) =
            (if l \<ge> 8 then
               (case (if l \<ge> shortestNinther then
                        (case medianAdjacent_func lt xs i swaps of (i, swaps) \<Rightarrow>
                         case medianAdjacent_func lt xs j swaps of (j, swaps) \<Rightarrow>
                         case medianAdjacent_func lt xs k swaps of (k, swaps) \<Rightarrow> (i, j, k, swaps))
                      else (i, j, k, swaps)) of
                  (i, j, k, swaps) \<Rightarrow> median_func lt xs i j k swaps)
             else (j, swaps))
      in if swaps = 0 then (j, increasingHint)
         else if swaps = maxSwaps then (j, decreasingHint)
         else (j, unknownHint))"

text \<open>\<^verbatim>\<open>partialInsertionSort_func\<close>: \<open>scanSorted\<close> is its scan for the next pair out of
  order, \<open>shiftLeft\<close> and \<open>shiftRight\<close> are its two shifting loops, \<open>partialLoop\<close> its loop
  of at most \<^verbatim>\<open>maxSteps\<close> rounds.\<close>

function scanSorted :: "('a \<Rightarrow> 'a \<Rightarrow> bool) \<Rightarrow> 'a list \<Rightarrow> nat \<Rightarrow> nat \<Rightarrow> nat" where
  "scanSorted lt xs b i =
     (if i < b \<and> \<not> dataLess lt xs i (i - 1) then scanSorted lt xs b (i + 1) else i)"
  by pat_completeness auto
termination
  by (relation "measure (\<lambda>(lt, xs, b, i). b - i)") auto

declare scanSorted.simps [simp del]

function shiftLeft :: "('a \<Rightarrow> 'a \<Rightarrow> bool) \<Rightarrow> nat \<Rightarrow> 'a list \<Rightarrow> 'a list" where
  "shiftLeft lt j xs =
     (if j \<ge> 1 then
        (if \<not> dataLess lt xs j (j - 1) then xs
         else shiftLeft lt (j - 1) (dataSwap j (j - 1) xs))
      else xs)"
  by pat_completeness auto
termination
  by (relation "measure (\<lambda>(lt, j, xs). j)") auto

declare shiftLeft.simps [simp del]

function shiftRight :: "('a \<Rightarrow> 'a \<Rightarrow> bool) \<Rightarrow> nat \<Rightarrow> nat \<Rightarrow> 'a list \<Rightarrow> 'a list" where
  "shiftRight lt b j xs =
     (if j < b then
        (if \<not> dataLess lt xs j (j - 1) then xs
         else shiftRight lt b (j + 1) (dataSwap j (j - 1) xs))
      else xs)"
  by pat_completeness auto
termination
  by (relation "measure (\<lambda>(lt, b, j, xs). b - j)") auto

declare shiftRight.simps [simp del]

fun partialLoop ::
  "('a \<Rightarrow> 'a \<Rightarrow> bool) \<Rightarrow> nat \<Rightarrow> nat \<Rightarrow> nat \<Rightarrow> nat \<Rightarrow> 'a list \<Rightarrow> bool \<times> 'a list" where
  "partialLoop lt a b i 0 xs = (False, xs)"
| "partialLoop lt a b i (Suc steps) xs =
     (let shortestShifting = 50;
          i = scanSorted lt xs b i in
      if i = b then (True, xs)
      else if b - a < shortestShifting then (False, xs)
      else
        (let xs = dataSwap i (i - 1) xs;
             xs = (if i - a \<ge> 2 then shiftLeft lt (i - 1) xs else xs);
             xs = (if b - i \<ge> 2 then shiftRight lt b (i + 1) xs else xs)
         in partialLoop lt a b i steps xs))"

definition partialInsertionSort_func ::
  "('a \<Rightarrow> 'a \<Rightarrow> bool) \<Rightarrow> nat \<Rightarrow> nat \<Rightarrow> 'a list \<Rightarrow> bool \<times> 'a list" where
  "partialInsertionSort_func lt a b xs = (let maxSteps = 5 in partialLoop lt a b (a + 1) maxSteps xs)"

text \<open>\<^verbatim>\<open>bits.Len\<close>, \<^verbatim>\<open>nextPowerOfTwo\<close> and \<^verbatim>\<open>breakPatterns_func\<close>. The pseudo-random
  generator (\<^verbatim>\<open>xorshift.Next\<close>, whose state starts at the length) is the parameter \<open>next\<close>.\<close>

fun bits_Len :: "nat \<Rightarrow> nat" where
  "bits_Len n = (if n = 0 then 0 else Suc (bits_Len (n div 2)))"

declare bits_Len.simps [simp del]

definition nextPowerOfTwo :: "nat \<Rightarrow> nat" where
  "nextPowerOfTwo len = 2 ^ bits_Len len"

fun breakLoop :: "nat \<Rightarrow> nat \<Rightarrow> nat \<Rightarrow> nat \<Rightarrow> nat \<Rightarrow> nat list \<Rightarrow> 'a list \<Rightarrow> 'a list" where
  "breakLoop a len modulus idx i [] xs = xs"
| "breakLoop a len modulus idx i (r # rs) xs =
     (let other = r mod modulus;
          other = (if other \<ge> len then other - len else other)
      in breakLoop a len modulus idx (i + 1) rs (dataSwap (idx - 1 + i) (a + other) xs))"

definition breakPatterns_func :: "(nat \<Rightarrow> nat) \<Rightarrow> nat \<Rightarrow> nat \<Rightarrow> 'a list \<Rightarrow> 'a list" where
  "breakPatterns_func next a b xs =
     (let len = b - a in
      if len \<ge> 8 then
        (let r1 = next len; r2 = next r1; r3 = next r2;
             modulus = nextPowerOfTwo len;
             idx = a + (len div 4) * 2 - 1
         in breakLoop a len modulus idx 0 [r1, r2, r3] xs)
      else xs)"

text \<open>The two scans of the partition functions, for a test \<open>p\<close> of the element at an index,
  and the loop that alternates them with a swap until the indices cross. The bounds on
  their results are what the termination of the loop and of the sort rests on.\<close>

function scanUp :: "(nat \<Rightarrow> bool) \<Rightarrow> nat \<Rightarrow> int \<Rightarrow> nat" where
  "scanUp p i j = (if int i \<le> j \<and> p i then scanUp p (i + 1) j else i)"
  by pat_completeness auto
termination
  by (relation "measure (\<lambda>(p, i, j). nat (j + 1 - int i))") auto

declare scanUp.simps [simp del]

function scanDown :: "(nat \<Rightarrow> bool) \<Rightarrow> nat \<Rightarrow> int \<Rightarrow> int" where
  "scanDown p i j = (if int i \<le> j \<and> p (nat j) then scanDown p i (j - 1) else j)"
  by pat_completeness auto
termination
  by (relation "measure (\<lambda>(p, i, j). nat (j + 1 - int i))") auto

declare scanDown.simps [simp del]

lemma scanUp_ge: "i \<le> scanUp p i j"
  by (induction p i j rule: scanUp.induct) (subst scanUp.simps, auto)

lemma scanDown_le: "scanDown p i j \<le> j"
  by (induction p i j rule: scanDown.induct) (subst scanDown.simps, auto)

lemma scanDown_ge: "min j (int i - 1) \<le> scanDown p i j"
  by (induction p i j rule: scanDown.induct) (subst scanDown.simps, auto)

function crossLoop ::
  "('a list \<Rightarrow> nat \<Rightarrow> bool) \<Rightarrow> ('a list \<Rightarrow> nat \<Rightarrow> bool) \<Rightarrow> nat \<Rightarrow> int \<Rightarrow> 'a list \<Rightarrow>
   'a list \<times> nat \<times> int" where
  "crossLoop up down i j xs =
     (let i = scanUp (up xs) i j;
          j = scanDown (down xs) i j
      in if int i > j then (xs, i, j)
         else crossLoop up down (i + 1) (j - 1) (dataSwap i (nat j) xs))"
  by pat_completeness auto
termination
proof (relation "measure (\<lambda>(up, down, i, j, xs). nat (j + 1 - int i))", goal_cases)
  case 1
  then show ?case by simp
next
  case (2 up down i j xs i' j')
  have "i \<le> i'" using 2(1) scanUp_ge by simp
  moreover have "j' \<le> j" using 2(2) scanDown_le by simp
  ultimately show ?case using 2(3) by simp
qed

declare crossLoop.simps [simp del]

lemma crossLoop_bounds:
  "crossLoop up down i j xs = (ys, i', j') \<Longrightarrow> i \<le> i' \<and> j' \<le> j \<and> min j (int i - 1) \<le> j'"
proof (induction up down i j xs rule: crossLoop.induct)
  case (1 up down i j xs)
  let ?i = "scanUp (up xs) i j"
  let ?j = "scanDown (down xs) ?i j"
  have a: "i \<le> ?i" by (rule scanUp_ge)
  have b: "?j \<le> j" by (rule scanDown_le)
  have c: "min j (int ?i - 1) \<le> ?j" by (rule scanDown_ge)
  show ?case
  proof (cases "int ?i > ?j")
    case True
    with "1.prems" have "i' = ?i" "j' = ?j"
      by (subst (asm) crossLoop.simps, simp add: Let_def)+
    with a b c show ?thesis by auto
  next
    case False
    with "1.prems" have r: "crossLoop up down (?i + 1) (?j - 1) (dataSwap ?i (nat ?j) xs) = (ys, i', j')"
      by (subst (asm) crossLoop.simps, simp add: Let_def)
    from "1.IH"[OF refl refl False r] a b c False show ?thesis by auto
  qed
qed

text \<open>\<^verbatim>\<open>partition_func\<close> (returning the slice, the new index of the pivot and
  \<^verbatim>\<open>alreadyPartitioned\<close>) and \<^verbatim>\<open>partitionEqual_func\<close>.\<close>

definition partition_func ::
  "('a \<Rightarrow> 'a \<Rightarrow> bool) \<Rightarrow> nat \<Rightarrow> nat \<Rightarrow> nat \<Rightarrow> 'a list \<Rightarrow> 'a list \<times> nat \<times> bool" where
  "partition_func lt a b pivot xs =
     (let xs = dataSwap a pivot xs;
          i = a + 1; j = int b - 1;
          i = scanUp (\<lambda>k. dataLess lt xs k a) i j;
          j = scanDown (\<lambda>k. \<not> dataLess lt xs k a) i j
      in if int i > j then (dataSwap (nat j) a xs, nat j, True)
         else
           (case crossLoop (\<lambda>xs k. dataLess lt xs k a) (\<lambda>xs k. \<not> dataLess lt xs k a)
                   (i + 1) (j - 1) (dataSwap i (nat j) xs) of
              (xs, i, j) \<Rightarrow> (dataSwap (nat j) a xs, nat j, False)))"

definition partitionEqual_func ::
  "('a \<Rightarrow> 'a \<Rightarrow> bool) \<Rightarrow> nat \<Rightarrow> nat \<Rightarrow> nat \<Rightarrow> 'a list \<Rightarrow> 'a list \<times> nat" where
  "partitionEqual_func lt a b pivot xs =
     (case crossLoop (\<lambda>xs k. \<not> dataLess lt xs a k) (\<lambda>xs k. dataLess lt xs a k)
             (a + 1) (int b - 1) (dataSwap a pivot xs) of
        (xs, i, j) \<Rightarrow> (xs, i))"

lemma partition_func_mid:
  assumes "partition_func lt a b pivot xs = (ys, mid, ap)" and "a < b"
  shows "a \<le> mid \<and> mid < b"
proof -
  let ?xs = "dataSwap a pivot xs"
  let ?i = "scanUp (\<lambda>k. dataLess lt ?xs k a) (a + 1) (int b - 1)"
  let ?j = "scanDown (\<lambda>k. \<not> dataLess lt ?xs k a) ?i (int b - 1)"
  have i: "a + 1 \<le> ?i" by (rule scanUp_ge)
  have j1: "?j \<le> int b - 1" by (rule scanDown_le)
  have j2: "min (int b - 1) (int ?i - 1) \<le> ?j" by (rule scanDown_ge)
  show ?thesis
  proof (cases "int ?i > ?j")
    case True
    with assms(1) have "mid = nat ?j" by (simp add: partition_func_def Let_def)
    with i j1 j2 assms(2) show ?thesis by auto
  next
    case False
    obtain zs i' j' where c: "crossLoop (\<lambda>xs k. dataLess lt xs k a) (\<lambda>xs k. \<not> dataLess lt xs k a)
                   (?i + 1) (?j - 1) (dataSwap ?i (nat ?j) ?xs) = (zs, i', j')"
      by (metis prod_cases3)
    with assms(1) False have m: "mid = nat j'" by (simp add: partition_func_def Let_def)
    from crossLoop_bounds[OF c] have "j' \<le> ?j - 1" "min (?j - 1) (int (?i + 1) - 1) \<le> j'" by auto
    with m i j1 False assms(2) show ?thesis by auto
  qed
qed

lemma partitionEqual_func_mid:
  assumes "partitionEqual_func lt a b pivot xs = (ys, mid)"
  shows "a < mid"
proof -
  obtain zs i' j' where c: "crossLoop (\<lambda>xs k. \<not> dataLess lt xs a k) (\<lambda>xs k. dataLess lt xs a k)
             (a + 1) (int b - 1) (dataSwap a pivot xs) = (zs, i', j')"
    by (metis prod_cases3)
  with assms have "mid = i'" by (simp add: partitionEqual_func_def)
  with crossLoop_bounds[OF c] show ?thesis by auto
qed

text \<open>
  \<^verbatim>\<open>pdqsort_func\<close>. One round of its loop ends the function (\<open>Finished\<close>), continues on
  \<open>[mid, b)\<close> after \<^verbatim>\<open>partitionEqual_func\<close> (\<open>Continue\<close>), or has partitioned at \<open>mid\<close>
  (\<open>Partitioned\<close>); in the last case the function calls itself on the shorter side, with
  \<^verbatim>\<open>wasBalanced\<close> and \<^verbatim>\<open>wasPartitioned\<close> fresh, and continues on the longer one.
\<close>

datatype 'a pdqStep =
    Finished "'a list"
  | Continue nat nat "'a list"
  | Partitioned nat bool nat "'a list"

definition pdqIteration ::
  "(nat \<Rightarrow> nat) \<Rightarrow> ('a \<Rightarrow> 'a \<Rightarrow> bool) \<Rightarrow> nat \<Rightarrow> nat \<Rightarrow> nat \<Rightarrow> bool \<Rightarrow> bool \<Rightarrow> 'a list \<Rightarrow> 'a pdqStep" where
  "pdqIteration next lt a b limit wasBalanced wasPartitioned xs =
     (let maxInsertion = 12;
          len = b - a
      in if len \<le> maxInsertion then Finished (insertionSort_func lt a b xs)
         else if limit = 0 then Finished (heapSort_func lt a b xs)
         else
           (let xs = (if \<not> wasBalanced then breakPatterns_func next a b xs else xs);
                limit = (if \<not> wasBalanced then limit - 1 else limit);
                (pivot, hint) = choosePivot_func lt a b xs;
                xs = (if hint = decreasingHint then reverseRange_func a b xs else xs);
                pivot = (if hint = decreasingHint then (b - 1) - (pivot - a) else pivot);
                hint = (if hint = decreasingHint then increasingHint else hint);
                likelySorted = (wasBalanced \<and> wasPartitioned \<and> hint = increasingHint);
                (isSorted, xs) =
                  (if likelySorted then partialInsertionSort_func lt a b xs else (False, xs))
            in if likelySorted \<and> isSorted then Finished xs
               else if a > 0 \<and> \<not> dataLess lt xs (a - 1) pivot then
                 (case partitionEqual_func lt a b pivot xs of (xs, mid) \<Rightarrow> Continue mid limit xs)
               else
                 (case partition_func lt a b pivot xs of
                    (xs, mid, alreadyPartitioned) \<Rightarrow> Partitioned mid alreadyPartitioned limit xs)))"

lemma pdqIteration_Continue:
  "pdqIteration next lt a b limit wb wp xs = Continue mid limit' ys \<Longrightarrow> a < mid \<and> 12 < b - a"
  by (auto simp: pdqIteration_def Let_def split: if_splits prod.splits dest: partitionEqual_func_mid)

lemma pdqIteration_Partitioned:
  "pdqIteration next lt a b limit wb wp xs = Partitioned mid ap limit' ys \<Longrightarrow>
     a \<le> mid \<and> mid < b \<and> 12 < b - a"
  by (auto simp: pdqIteration_def Let_def split: if_splits prod.splits dest: partition_func_mid)

function pdqsort_func ::
  "(nat \<Rightarrow> nat) \<Rightarrow> ('a \<Rightarrow> 'a \<Rightarrow> bool) \<Rightarrow> nat \<Rightarrow> nat \<Rightarrow> nat \<Rightarrow> bool \<Rightarrow> bool \<Rightarrow> 'a list \<Rightarrow> 'a list" where
  "pdqsort_func next lt a b limit wasBalanced wasPartitioned xs =
     (case pdqIteration next lt a b limit wasBalanced wasPartitioned xs of
        Finished xs \<Rightarrow> xs
      | Continue mid limit xs \<Rightarrow> pdqsort_func next lt mid b limit wasBalanced wasPartitioned xs
      | Partitioned mid alreadyPartitioned limit xs \<Rightarrow>
          (let leftLen = mid - a; rightLen = b - mid;
               balanceThreshold = (b - a) div 8
           in if leftLen < rightLen then
                pdqsort_func next lt (mid + 1) b limit (leftLen \<ge> balanceThreshold) alreadyPartitioned
                  (pdqsort_func next lt a mid limit True True xs)
              else
                pdqsort_func next lt a mid limit (rightLen \<ge> balanceThreshold) alreadyPartitioned
                  (pdqsort_func next lt (mid + 1) b limit True True xs)))"
  by pat_completeness auto
termination
  by (relation "measure (\<lambda>(next, lt, a, b, limit, wb, wp, xs). b - a)")
     (auto dest!: pdqIteration_Continue pdqIteration_Partitioned)

declare pdqsort_func.simps [simp del]

text \<open>\<^verbatim>\<open>sort.Slice\<close> itself.\<close>

definition sort_Slice_func :: "(nat \<Rightarrow> nat) \<Rightarrow> ('a \<Rightarrow> 'a \<Rightarrow> bool) \<Rightarrow> 'a list \<Rightarrow> 'a list" where
  "sort_Slice_func next lt x =
     (let len = length x; limit = bits_Len len in pdqsort_func next lt 0 len limit True True x)"

section \<open>Concrete inputs\<close>

definition emptyWorld :: world where
  "emptyWorld = \<lparr>fsDirs = {}, fsFiles = Map.empty, repos = {}, index = [], commits = [],
                 out = [], calls = []\<rparr>"

text \<open>Insertion sort, a routine that keeps the contract of \<^verbatim>\<open>sort.Slice\<close>.\<close>

fun insertBy :: "('a \<Rightarrow> 'a \<Rightarrow> bool) \<Rightarrow> 'a \<Rightarrow> 'a list \<Rightarrow> 'a list" where
  "insertBy lt x [] = [x]"
| "insertBy lt x (y # ys) = (if lt x y then x # y # ys else y # insertBy lt x ys)"

definition insertionSort :: "('a \<Rightarrow> 'a \<Rightarrow> bool) \<Rightarrow> 'a list \<Rightarrow> 'a list" where
  "insertionSort lt xs = foldl (\<lambda>acc x. insertBy lt x acc) [] xs"

definition dirOf :: "string \<Rightarrow> string" where
  "dirOf p = rev (drop 1 (dropWhile (\<lambda>c. c \<noteq> CHR ''/'') (rev p)))"

text \<open>An environment in which every call succeeds; the bucket \<open>b\<close> holds \<open>a.txt\<close> (versions
  \<open>v2\<close> at time 2 and \<open>v1\<close> at time 1) and \<open>b.txt\<close> (version \<open>v1\<close> at time 1), and the content
  of a version is its key and version id.\<close>

definition okEnv :: env where
  "okEnv =
     \<lparr>s3_ListObjectsV2 = (\<lambda>b. Inr [Some ''a.txt'', Some ''b.txt'']),
      s3_ListObjectVersions = (\<lambda>b k.
        if k = ''a.txt'' then
          Inr [\<lparr>vKey = Some ''a.txt'', vVersionId = Some ''v2'', vLastModified = Some (utc 2)\<rparr>,
               \<lparr>vKey = Some ''a.txt'', vVersionId = Some ''v1'', vLastModified = Some (utc 1)\<rparr>]
        else if k = ''b.txt'' then
          Inr [\<lparr>vKey = Some ''b.txt'', vVersionId = Some ''v1'', vLastModified = Some (utc 1)\<rparr>]
        else Inr []),
      s3_GetObject = (\<lambda>b k v. Inr (k @ ''@'' @ v, None)),
      sort_Slice = insertionSort,
      filepath_Abs = (\<lambda>p. Inr p),
      filepath_Dir = dirOf,
      filepath_Join = (\<lambda>a b. a @ ''/'' @ b),
      time_String = (\<lambda>t. replicate (nat (instant t)) (CHR ''I'')),
      os_MkdirAll_err = (\<lambda>w p. None),
      os_Create_err = (\<lambda>w p. None),
      file_Write_err = (\<lambda>w p b. None),
      tree_Add_err = (\<lambda>w p. None),
      tree_Commit_err = (\<lambda>w m s. None),
      repo_CommitObject_err = (\<lambda>w h. None),
      git_PlainInit_err = (\<lambda>w p. None),
      repo_Worktree_err = (\<lambda>w p. None),
      config_Load_err = (\<lambda>opts. None)\<rparr>"

definition ver :: "string \<Rightarrow> string \<Rightarrow> int \<Rightarrow> S3VersionedObject" where
  "ver k v t =
     \<lparr>Key = k, Bucket = ''b'', VersionId = v, RepositoryRoot = ''/out'', LastModified = utc t\<rparr>"

text \<open>The scenario of the specification: \<open>a.txt\<close> and \<open>b.txt\<close> modified at time 1, \<open>a.txt\<close>
  again at time 2.\<close>

definition scenario :: "S3VersionedObject list" where
  "scenario = [ver ''a.txt'' ''v1'' 1, ver ''b.txt'' ''v1'' 1, ver ''a.txt'' ''v2'' 2]"

text \<open>Reading the body of every fetched object stops with an error after three bytes.\<close>

definition truncEnv :: env where
  "truncEnv = okEnv\<lparr>s3_GetObject := (\<lambda>b k v. Inr (''par'', Some (Error ''unexpected EOF'')))\<rparr>"

text \<open>The listing of the bucket fails.\<close>

definition noListEnv :: env where
  "noListEnv = okEnv\<lparr>s3_ListObjectsV2 := (\<lambda>b. Inl (Error ''AccessDenied''))\<rparr>"

definition demoFlags :: flags where
  "demoFlags = \<lparr>bucketFlag = ''b'', outputFlag = ''/out'', profileFlag = [],
                regionFlag = ''us-west-2'', helpFlag = False\<rparr>"

text \<open>Fetching any version \<open>v2\<close> fails.\<close>

definition getFailEnv :: env where
  "getFailEnv = okEnv\<lparr>s3_GetObject :=
     (\<lambda>b k v. if v = ''v2'' then Inl (Error ''NoSuchVersion'') else Inr (k @ ''@'' @ v, None))\<rparr>"

text \<open>Looking up a commit that was just created fails.\<close>

definition lookupFailEnv :: env where
  "lookupFailEnv = okEnv\<lparr>repo_CommitObject_err := (\<lambda>w h. Some (Error ''object not found''))\<rparr>"

text \<open>The scenario followed by \<open>c.txt\<close> modified at time 3.\<close>

definition scenario4 :: "S3VersionedObject list" where
  "scenario4 = scenario @ [ver ''c.txt'' ''v1'' 3]"

text \<open>A sorted sequence whose first record has the zero time, as \<^verbatim>\<open>aws.ToTime\<close> gives it
  for a version listed without a modification time.\<close>

definition zeroScenario :: "S3VersionedObject list" where
  "zeroScenario =
     [versionOf ''/out'' \<lparr>oKey = ''z.txt'', oBucket = ''b''\<rparr>
        \<lparr>vKey = Some ''z.txt'', vVersionId = Some ''v1'', vLastModified = None\<rparr>,
      ver ''b.txt'' ''v1'' 5, ver ''a.txt'' ''v2'' 7]"

text \<open>Listing the versions of \<open>a.txt\<close> fails.\<close>

definition partEnv :: env where
  "partEnv = okEnv\<lparr>s3_ListObjectVersions := (\<lambda>b k.
     if k = ''a.txt'' then Inl (Error ''SlowDown'') else s3_ListObjectVersions okEnv b k)\<rparr>"

definition demoObjects :: "S3Object list" where
  "demoObjects = [\<lparr>oKey = ''a.txt'', oBucket = ''b''\<rparr>, \<lparr>oKey = ''b.txt'', oBucket = ''b''\<rparr>]"

text \<open>
  A bucket of thirteen objects \<open>k00\<close>, ..., \<open>k12\<close> with one version each, all modified at
  time 1 but \<open>k11\<close>, modified at time 2, and the sort of the library, for a generator
  \<open>next\<close>.
\<close>

definition thirteenKeys :: "string list" where
  "thirteenKeys =
     [''k00'', ''k01'', ''k02'', ''k03'', ''k04'', ''k05'', ''k06'', ''k07'', ''k08'', ''k09'',
      ''k10'', ''k11'', ''k12'']"

definition thirteenObjects :: "S3Object list" where
  "thirteenObjects = map (\<lambda>k. \<lparr>oKey = k, oBucket = ''b''\<rparr>) thirteenKeys"

definition versionAt :: "string \<Rightarrow> S3VersionedObject" where
  "versionAt k = ver k ''v1'' (if k = ''k11'' then 2 else 1)"

definition thirteenVersions :: "S3VersionedObject list" where
  "thirteenVersions = map versionAt thirteenKeys"

text \<open>The slice after the partition step of the sort (\<open>k06\<close> and \<open>k00\<close> exchanged), and
  at the end.\<close>

definition thirteenPartitioned :: "S3VersionedObject list" where
  "thirteenPartitioned =
     map versionAt
       [''k06'', ''k01'', ''k02'', ''k03'', ''k04'', ''k05'', ''k00'', ''k07'', ''k08'', ''k09'',
        ''k10'', ''k11'', ''k12'']"

definition thirteenSorted :: "S3VersionedObject list" where
  "thirteenSorted =
     map versionAt
       [''k06'', ''k01'', ''k02'', ''k03'', ''k04'', ''k05'', ''k00'', ''k07'', ''k08'', ''k09'',
        ''k10'', ''k12'', ''k11'']"

definition goEnv :: "(nat \<Rightarrow> nat) \<Rightarrow> env" where
  "goEnv next =
     okEnv\<lparr>s3_ListObjectsV2 := (\<lambda>b. Inr (map Some thirteenKeys)),
           s3_ListObjectVersions := (\<lambda>b k.
             Inr [\<lparr>vKey = Some k, vVersionId = Some ''v1'',
                   vLastModified = Some (utc (if k = ''k11'' then 2 else 1))\<rparr>]),
           sort_Slice := sort_Slice_func next\<rparr>"

text \<open>The zero instant read in a location other than UTC: \<^verbatim>\<open>IsZero\<close> holds of it, and it
  is not equal (\<^verbatim>\<open>==\<close>) to \<^verbatim>\<open>time.Time{}\<close>.\<close>

definition zeroOffset :: time where
  "zeroOffset = \<lparr>instant = 0, loc = Some 1\<rparr>"

text \<open>Two sorted sequences that start with a record at the zero instant with a location:
  in the first the next record has the zero time.\<close>

definition zeroLastScenario :: "S3VersionedObject list" where
  "zeroLastScenario =
     [(ver ''a.txt'' ''v1'' 0)\<lparr>LastModified := zeroOffset\<rparr>,
      versionOf ''/out'' \<lparr>oKey = ''b.txt'', oBucket = ''b''\<rparr>
        \<lparr>vKey = Some ''b.txt'', vVersionId = Some ''v1'', vLastModified = None\<rparr>,
      ver ''c.txt'' ''v1'' 5]"

definition offsetScenario :: "S3VersionedObject list" where
  "offsetScenario =
     [(ver ''z.txt'' ''v1'' 0)\<lparr>LastModified := zeroOffset\<rparr>,
      ver ''b.txt'' ''v1'' 5, ver ''a.txt'' ''v2'' 7]"

section \<open>Frame and effect lemmas\<close>

lemma say_fields [simp]:
  "commits (say m w) = commits w" "index (say m w) = index w" "calls (say m w) = calls w"
  "fsDirs (say m w) = fsDirs w" "fsFiles (say m w) = fsFiles w" "repos (say m w) = repos w"
  "out (say m w) = out w @ m"
  by (simp_all add: say_def)

lemma record_call_fields [simp]:
  "commits (record_call c w) = commits w" "index (record_call c w) = index w"
  "calls (record_call c w) = calls w @ [c]"
  "fsDirs (record_call c w) = fsDirs w" "fsFiles (record_call c w) = fsFiles w"
  "repos (record_call c w) = repos w" "out (record_call c w) = out w"
  by (simp_all add: record_call_def)

lemma toLocalPath_frame:
  "commits (snd (toLocalPath e svo w)) = commits w"
  "index (snd (toLocalPath e svo w)) = index w"
  by (simp_all add: toLocalPath_def Let_def split: sum.splits)

lemma downloadFile_frame:
  "commits (snd (downloadFile e obj w)) = commits w"
  "index (snd (downloadFile e obj w)) = index w"
  by (simp_all add: downloadFile_def Let_def case_prod_beta toLocalPath_frame split: sum.splits option.splits)

lemma stageObjects_commits:
  "commits (snd (stageObjects e objs fs d w)) = commits w"
proof (induction objs arbitrary: fs d w)
  case Nil
  then show ?case by simp
next
  case (Cons obj objs)
  show ?case
    by (simp add: Cons.IH case_prod_beta downloadFile_frame toLocalPath_frame split: option.splits)
qed

lemma stageObjects_ok:
  "stageObjects e objs fs d w = (Inr (fs', d'), w') \<Longrightarrow>
     d' = dateOf d objs \<and> index w' = index w @ map toBasenamePath objs"
proof (induction objs arbitrary: fs d w)
  case Nil
  then show ?case by (simp add: dateOf_def)
next
  case (Cons obj objs)
  obtain r1 w1 where d1: "downloadFile e obj w = (r1, w1)" by (cases "downloadFile e obj w")
  obtain p w2 where t2: "toLocalPath e obj w1 = (p, w2)" by (cases "toLocalPath e obj w1")
  from Cons.prems d1 t2 have r1: "r1 = None" by (cases r1) auto
  from Cons.prems d1 t2 r1 have a: "tree_Add_err e w2 (toBasenamePath obj) = None"
    by (cases "tree_Add_err e w2 (toBasenamePath obj)") (auto split: prod.splits)
  from Cons.prems d1 t2 r1 a have rec:
    "stageObjects e objs (fs @ [p]) (LastModified obj) (w2\<lparr>index := index w2 @ [toBasenamePath obj]\<rparr>) = (Inr (fs', d'), w')"
    by simp
  have i2: "index w2 = index w"
    using downloadFile_frame(2)[of e obj w] toLocalPath_frame(2)[of e obj w1] d1 t2 by simp
  from Cons.IH[OF rec] i2 show ?case by (auto simp: dateOf_def)
qed

lemma commitStaged_ok:
  "commitStaged e fs d w = (None, w') \<Longrightarrow>
     commits w' = commits w @ [\<lparr>Message = commitMsg e d, Author = author d, Staged = index w\<rparr>]"
  by (auto simp: commitStaged_def Let_def split: option.splits)

lemma commitStaged_err:
  "commitStaged e fs d w = (Some err, w') \<Longrightarrow>
     (tree_Commit_err e w (commitMsg e d) (author d) \<noteq> None \<and> commits w' = commits w) \<or>
     (tree_Commit_err e w (commitMsg e d) (author d) = None \<and>
      commits w' = commits w @ [\<lparr>Message = commitMsg e d, Author = author d, Staged = index w\<rparr>])"
  by (auto simp: commitStaged_def Let_def split: option.splits)

lemma applyGitChanges_ok:
  assumes "applyGitChanges e g w = (None, w')"
  shows "commits w' = commits w @ [commitOf e (index w) g]"
proof -
  obtain r w1 where s: "stageObjects e g [] zeroTime w = (r, w1)"
    by (cases "stageObjects e g [] zeroTime w")
  with assms obtain fs d where r: "r = Inr (fs, d)" and c: "commitStaged e fs d w1 = (None, w')"
    by (cases r) (auto simp: applyGitChanges_def)
  from stageObjects_ok[OF s[unfolded r]] have d: "d = dateOf zeroTime g"
    and i: "index w1 = index w @ map toBasenamePath g" by simp_all
  have k: "commits w1 = commits w" using stageObjects_commits[of e g "[]" zeroTime w] s by simp
  from commitStaged_ok[OF c] d i k show ?thesis by (simp add: commitOf_def)
qed

lemma applyGitChanges_err:
  assumes "applyGitChanges e g w = (Some err, w')"
  shows "commits w' = commits w \<or> commits w' = commits w @ [commitOf e (index w) g]"
proof -
  obtain r w1 where s: "stageObjects e g [] zeroTime w = (r, w1)"
    by (cases "stageObjects e g [] zeroTime w")
  have k: "commits w1 = commits w" using stageObjects_commits[of e g "[]" zeroTime w] s by simp
  show ?thesis
  proof (cases r)
    case (Inl x)
    with assms s k show ?thesis by (simp add: applyGitChanges_def)
  next
    case (Inr p)
    obtain fs d where p: "p = (fs, d)" by (cases p)
    from assms s Inr p have c: "commitStaged e fs d w1 = (Some err, w')"
      by (simp add: applyGitChanges_def)
    from stageObjects_ok[OF s[unfolded Inr p]] have d: "d = dateOf zeroTime g"
      and i: "index w1 = index w @ map toBasenamePath g" by simp_all
    from commitStaged_err[OF c] d i k show ?thesis by (auto simp: commitOf_def)
  qed
qed

lemma replayLoop_flushes:
  "replayLoop e vs cd buf w =
     loopResult (flushes vs cd buf) (applyAll e (map snd (fst (flushes vs cd buf))) w)"
proof (induction vs arbitrary: cd buf w)
  case Nil
  then show ?case by (simp add: loopResult_def)
next
  case (Cons v vs)
  show ?case
    by (simp add: Cons.IH Let_def case_prod_beta loopResult_def split: option.splits)
qed

section \<open>The buffers of a scan\<close>



lemma flushes_concat:
  "concat (map snd (fst (flushes vs cd buf))) @ snd (snd (flushes vs cd buf)) = buf @ vs"
  by (induction vs arbitrary: cd buf) (simp_all add: Let_def case_prod_beta)


text \<open>Sorted input: every flushed buffer ends in a record at the instant of its boundary,
  and the instants of the boundaries increase strictly.\<close>

lemma flushes_sorted:
  assumes "sorted (map stamp (buf @ vs))"
    and "buf = [] \<longrightarrow> cd = zeroTime"
    and "buf \<noteq> [] \<longrightarrow> instant cd = stamp (last buf)"
  shows "sorted_wrt (<) (map (\<lambda>g. instant (fst g)) (fst (flushes vs cd buf))) \<and>
         (\<forall>g\<in>set (fst (flushes vs cd buf)).
            snd g \<noteq> [] \<and> instant (fst g) = stamp (last (snd g)) \<and>
            (buf \<noteq> [] \<longrightarrow> stamp (last buf) \<le> instant (fst g)))"
  using assms
proof (induction vs arbitrary: cd buf)
  case Nil
  then show ?case by simp
next
  case (Cons v vs)
  let ?cd = "if cd = zeroTime then LastModified v else cd"
  have le: "buf \<noteq> [] \<Longrightarrow> stamp (last buf) \<le> stamp v"
    using Cons.prems(1) by (simp add: sorted_append)
  show ?case
  proof (cases "After (LastModified v) ?cd")
    case True
    then have nz: "cd \<noteq> zeroTime" and lt: "instant cd < stamp v"
      by (auto simp: After_def stamp_def split: if_splits)
    with Cons.prems have ne: "buf \<noteq> []" and cdl: "instant cd = stamp (last buf)" by auto
    have srt: "sorted (map stamp ([v] @ vs))"
      using Cons.prems(1) by (simp add: sorted_append)
    define X where "X = fst (flushes vs (LastModified v) [v])"
    have ih: "sorted_wrt (<) (map (\<lambda>g. instant (fst g)) X) \<and>
         (\<forall>g\<in>set X.
            snd g \<noteq> [] \<and> instant (fst g) = stamp (last (snd g)) \<and>
            ([v] \<noteq> [] \<longrightarrow> stamp (last [v]) \<le> instant (fst g)))"
      unfolding X_def by (rule Cons.IH[OF srt]) (simp_all add: stamp_def)
    have fl: "fst (flushes (v # vs) cd buf) = (cd, buf) # X"
      using True nz by (simp add: Let_def case_prod_beta X_def)
    have bound: "\<forall>g\<in>set X. instant cd < instant (fst g)"
    proof
      fix g assume "g \<in> set X"
      with ih have "[v] \<noteq> [] \<longrightarrow> stamp (last [v]) \<le> instant (fst g)" by blast
      then have "stamp v \<le> instant (fst g)" by simp
      with lt show "instant cd < instant (fst g)" by simp
    qed
    show ?thesis
      unfolding fl using ih ne cdl bound by (auto simp: less_imp_le)
  next
    case False
    have eq: "instant ?cd = stamp v"
    proof (cases "cd = zeroTime")
      case True
      then show ?thesis by (simp add: stamp_def)
    next
      case nz: False
      with Cons.prems have "buf \<noteq> []" and "instant cd = stamp (last buf)" by auto
      with le False nz show ?thesis by (simp add: After_def stamp_def)
    qed
    have srt: "sorted (map stamp ((buf @ [v]) @ vs))"
      using Cons.prems(1) by simp
    define X where "X = fst (flushes vs ?cd (buf @ [v]))"
    have ih: "sorted_wrt (<) (map (\<lambda>g. instant (fst g)) X) \<and>
         (\<forall>g\<in>set X.
            snd g \<noteq> [] \<and> instant (fst g) = stamp (last (snd g)) \<and>
            (buf @ [v] \<noteq> [] \<longrightarrow> stamp (last (buf @ [v])) \<le> instant (fst g)))"
      unfolding X_def
    proof (rule Cons.IH[OF srt])
      show "buf @ [v] = [] \<longrightarrow> ?cd = zeroTime" by simp
      show "buf @ [v] \<noteq> [] \<longrightarrow> instant ?cd = stamp (last (buf @ [v]))" using eq by simp
    qed
    have fl: "fst (flushes (v # vs) cd buf) = X"
      using False by (simp add: Let_def X_def)
    have m: "\<forall>g\<in>set X. snd g \<noteq> [] \<and> instant (fst g) = stamp (last (snd g)) \<and>
            (buf \<noteq> [] \<longrightarrow> stamp (last buf) \<le> instant (fst g))"
    proof
      fix g assume "g \<in> set X"
      with ih have "snd g \<noteq> [] \<and> instant (fst g) = stamp (last (snd g)) \<and>
            (buf @ [v] \<noteq> [] \<longrightarrow> stamp (last (buf @ [v])) \<le> instant (fst g))" by blast
      then have a: "snd g \<noteq> []" and b: "instant (fst g) = stamp (last (snd g))"
        and c: "stamp v \<le> instant (fst g)" by simp_all
      from c le have "buf \<noteq> [] \<longrightarrow> stamp (last buf) \<le> instant (fst g)" by auto
      with a b show "snd g \<noteq> [] \<and> instant (fst g) = stamp (last (snd g)) \<and>
            (buf \<noteq> [] \<longrightarrow> stamp (last buf) \<le> instant (fst g))" by blast
    qed
    show ?thesis unfolding fl using ih m by blast
  qed
qed

lemma commitStaged_ok_index:
  "commitStaged e fs d w = (None, w') \<Longrightarrow> index w' = []"
  by (auto simp: commitStaged_def Let_def split: option.splits)

lemma applyGitChanges_ok_index:
  "applyGitChanges e g w = (None, w') \<Longrightarrow> index w' = []"
  by (auto simp: applyGitChanges_def dest: commitStaged_ok_index split: prod.splits sum.splits)

lemma applyAll_append:
  "applyAll e (xs @ ys) w =
     (if fst (applyAll e xs w) then applyAll e ys (snd (applyAll e xs w)) else applyAll e xs w)"
  by (induction xs arbitrary: w) (auto split: prod.splits option.splits)

lemma applyAll_ok:
  "applyAll e gs w = (True, w') \<Longrightarrow> commits w' = commits w @ commitsFor e (index w) gs"
proof (induction gs arbitrary: w)
  case Nil
  then show ?case by simp
next
  case (Cons g gs)
  obtain r w1 where a: "applyGitChanges e g w = (r, w1)" by (cases "applyGitChanges e g w")
  with Cons.prems have r: "r = None" and rest: "applyAll e gs w1 = (True, w')"
    by (cases r; simp)+
  from applyGitChanges_ok[OF a[unfolded r]] applyGitChanges_ok_index[OF a[unfolded r]]
    Cons.IH[OF rest]
  show ?case by simp
qed

lemma applyAll_commits:
  "\<exists>k\<le>length gs. commits (snd (applyAll e gs w)) = commits w @ take k (commitsFor e (index w) gs)"
proof (induction gs arbitrary: w)
  case Nil
  then show ?case by simp
next
  case (Cons g gs)
  obtain r w1 where a: "applyGitChanges e g w = (r, w1)" by (cases "applyGitChanges e g w")
  show ?case
  proof (cases r)
    case None
    from Cons.IH[of w1] obtain k where k: "k \<le> length gs"
      and c: "commits (snd (applyAll e gs w1)) = commits w1 @ take k (commitsFor e (index w1) gs)"
      by blast
    from applyGitChanges_ok[OF a[unfolded None]] applyGitChanges_ok_index[OF a[unfolded None]] c
    have "commits (snd (applyAll e (g # gs) w)) =
            commits w @ take (Suc k) (commitsFor e (index w) (g # gs))"
      using a None by simp
    with k show ?thesis by (intro exI[of _ "Suc k"]) simp
  next
    case (Some err)
    from applyGitChanges_err[OF a[unfolded Some]]
    have "commits w1 = commits w @ take 0 (commitsFor e (index w) (g # gs)) \<or>
          commits w1 = commits w @ take 1 (commitsFor e (index w) (g # gs))"
      by auto
    then show ?thesis
    proof
      assume "commits w1 = commits w @ take 0 (commitsFor e (index w) (g # gs))"
      then show ?thesis using a Some by (intro exI[of _ 0]) simp
    next
      assume "commits w1 = commits w @ take 1 (commitsFor e (index w) (g # gs))"
      then show ?thesis using a Some by (intro exI[of _ 1]) simp
    qed
  qed
qed

lemma length_commitsFor [simp]: "length (commitsFor e idx gs) = length gs"
  by (induction gs arbitrary: idx) simp_all

lemma commitsFor_nth:
  "i < length gs \<Longrightarrow> commitsFor e idx gs ! i = commitOf e (if i = 0 then idx else []) (gs ! i)"
proof (induction gs arbitrary: idx i)
  case Nil
  then show ?case by simp
next
  case (Cons g gs)
  then show ?case by (cases i) simp_all
qed

lemma failsBeforeCommit_fails:
  assumes "failsBeforeCommit e g w"
  shows "fst (applyGitChanges e g w) \<noteq> None \<and> commits (snd (applyGitChanges e g w)) = commits w"
proof -
  obtain r w1 where s: "stageObjects e g [] zeroTime w = (r, w1)"
    by (cases "stageObjects e g [] zeroTime w")
  have k: "commits w1 = commits w" using stageObjects_commits[of e g "[]" zeroTime w] s by simp
  show ?thesis
  proof (cases r)
    case (Inl x)
    with s k show ?thesis by (simp add: applyGitChanges_def)
  next
    case (Inr p)
    obtain fs d where p: "p = (fs, d)" by (cases p)
    from assms s Inr p obtain x where "tree_Commit_err e w1 (commitMsg e d) (author d) = Some x"
      by (auto simp: failsBeforeCommit_def)
    with s Inr p k show ?thesis by (simp add: applyGitChanges_def commitStaged_def)
  qed
qed

lemma applyGitChanges_late_failure:
  assumes "applyGitChanges e g w = (Some err, w')" and "\<not> failsBeforeCommit e g w"
  shows "commits w' = commits w @ [commitOf e (index w) g]"
proof -
  obtain r w1 where s: "stageObjects e g [] zeroTime w = (r, w1)"
    by (cases "stageObjects e g [] zeroTime w")
  have k: "commits w1 = commits w" using stageObjects_commits[of e g "[]" zeroTime w] s by simp
  from assms(2) s obtain fs d where r: "r = Inr (fs, d)"
    and t: "tree_Commit_err e w1 (commitMsg e d) (author d) = None"
    by (cases r) (auto simp: failsBeforeCommit_def)
  from assms(1) s r have c: "commitStaged e fs d w1 = (Some err, w')"
    by (simp add: applyGitChanges_def)
  from stageObjects_ok[OF s[unfolded r]] have d: "d = dateOf zeroTime g"
    and i: "index w1 = index w @ map toBasenamePath g" by simp_all
  from commitStaged_err[OF c] t d i k show ?thesis by (auto simp: commitOf_def)
qed

text \<open>The run of the loop in terms of the buffers.\<close>

lemma replayS3Changes_applyAll:
  "replayS3Changes e vs w = snd (applyAll e (map snd (fst (flushes vs zeroTime []))) w)"
  by (simp add: replayS3Changes_def replayLoop_flushes loopResult_def)

lemma replay_new_commits:
  "\<exists>k\<le>length (fst (flushes vs zeroTime [])).
     commits (replayS3Changes e vs w) =
       commits w @ take k (commitsFor e (index w) (map snd (fst (flushes vs zeroTime []))))"
  using applyAll_commits[of "map snd (fst (flushes vs zeroTime []))" e w]
  by (simp add: replayS3Changes_applyAll)

section \<open>Buffers of a sorted input without the zero time\<close>

lemma flushes_uniform:
  assumes "sorted (map stamp (buf @ vs))"
    and "\<forall>v\<in>set vs. LastModified v \<noteq> zeroTime"
    and "buf = [] \<longrightarrow> cd = zeroTime"
    and "buf \<noteq> [] \<longrightarrow> cd \<noteq> zeroTime \<and> (\<forall>x\<in>set buf. stamp x = instant cd)"
  shows "sorted_wrt (<) (map (\<lambda>g. instant (fst g)) (fst (flushes vs cd buf) @ [snd (flushes vs cd buf)])) \<and>
         (\<forall>g\<in>set (fst (flushes vs cd buf) @ [snd (flushes vs cd buf)]).
            (\<forall>x\<in>set (snd g). stamp x = instant (fst g)) \<and>
            (buf \<noteq> [] \<longrightarrow> instant cd \<le> instant (fst g)))"
  using assms
proof (induction vs arbitrary: cd buf)
  case Nil
  then show ?case by auto
next
  case (Cons v vs)
  let ?cd = "if cd = zeroTime then LastModified v else cd"
  have vnz: "LastModified v \<noteq> zeroTime" and rest: "\<forall>x\<in>set vs. LastModified x \<noteq> zeroTime"
    using Cons.prems(2) by simp_all
  show ?case
  proof (cases "After (LastModified v) ?cd")
    case True
    then have nz: "cd \<noteq> zeroTime" and lt: "instant cd < stamp v"
      by (auto simp: After_def stamp_def split: if_splits)
    with Cons.prems(3,4) have ne: "buf \<noteq> []" and un: "\<forall>x\<in>set buf. stamp x = instant cd"
      by blast+
    have srt: "sorted (map stamp ([v] @ vs))"
      using Cons.prems(1) by (simp add: sorted_append)
    define X where "X = fst (flushes vs (LastModified v) [v]) @ [snd (flushes vs (LastModified v) [v])]"
    have ih: "sorted_wrt (<) (map (\<lambda>g. instant (fst g)) X) \<and>
         (\<forall>g\<in>set X.
            (\<forall>x\<in>set (snd g). stamp x = instant (fst g)) \<and>
            ([v] \<noteq> [] \<longrightarrow> instant (LastModified v) \<le> instant (fst g)))"
      unfolding X_def by (rule Cons.IH[OF srt rest]) (simp_all add: vnz stamp_def)
    have fl: "fst (flushes (v # vs) cd buf) @ [snd (flushes (v # vs) cd buf)] = (cd, buf) # X"
      using True nz by (simp add: Let_def case_prod_beta X_def)
    have bound: "\<forall>g\<in>set X. instant cd < instant (fst g)"
    proof
      fix g assume "g \<in> set X"
      with ih have "instant (LastModified v) \<le> instant (fst g)" by simp
      with lt show "instant cd < instant (fst g)" by (simp add: stamp_def)
    qed
    have s: "sorted_wrt (<) (map (\<lambda>g. instant (fst g)) ((cd, buf) # X))"
      using ih bound by simp
    have m: "\<forall>g\<in>set ((cd, buf) # X).
               (\<forall>x\<in>set (snd g). stamp x = instant (fst g)) \<and>
               (buf \<noteq> [] \<longrightarrow> instant cd \<le> instant (fst g))"
    proof
      fix g assume "g \<in> set ((cd, buf) # X)"
      then consider "g = (cd, buf)" | "g \<in> set X" by auto
      then show "(\<forall>x\<in>set (snd g). stamp x = instant (fst g)) \<and>
                 (buf \<noteq> [] \<longrightarrow> instant cd \<le> instant (fst g))"
      proof cases
        case 1
        with un show ?thesis by simp
      next
        case 2
        with ih bound show ?thesis by (simp add: less_imp_le)
      qed
    qed
    show ?thesis unfolding fl using s m by blast
  next
    case False
    have eq: "instant ?cd = stamp v"
    proof (cases "cd = zeroTime")
      case True
      then show ?thesis by (simp add: stamp_def)
    next
      case nz: False
      with Cons.prems(3,4) have ne: "buf \<noteq> []" and un: "\<forall>x\<in>set buf. stamp x = instant cd"
        by blast+
      then have "stamp (last buf) = instant cd" by simp
      moreover have "stamp (last buf) \<le> stamp v"
        using Cons.prems(1) ne by (simp add: sorted_append)
      ultimately show ?thesis using False nz by (simp add: After_def stamp_def)
    qed
    have un: "\<forall>x\<in>set (buf @ [v]). stamp x = instant ?cd"
    proof (cases "buf = []")
      case True
      then show ?thesis using eq by simp
    next
      case ne: False
      with Cons.prems(4) have "cd \<noteq> zeroTime" and "\<forall>x\<in>set buf. stamp x = instant cd" by blast+
      then show ?thesis using eq by simp
    qed
    have srt: "sorted (map stamp ((buf @ [v]) @ vs))"
      using Cons.prems(1) by simp
    define X where "X = fst (flushes vs ?cd (buf @ [v])) @ [snd (flushes vs ?cd (buf @ [v]))]"
    have cnz: "?cd \<noteq> zeroTime" using vnz by simp
    have ih: "sorted_wrt (<) (map (\<lambda>g. instant (fst g)) X) \<and>
         (\<forall>g\<in>set X.
            (\<forall>x\<in>set (snd g). stamp x = instant (fst g)) \<and>
            (buf @ [v] \<noteq> [] \<longrightarrow> instant ?cd \<le> instant (fst g)))"
      unfolding X_def
    proof (rule Cons.IH[OF srt rest])
      show "buf @ [v] = [] \<longrightarrow> ?cd = zeroTime" by simp
      show "buf @ [v] \<noteq> [] \<longrightarrow> ?cd \<noteq> zeroTime \<and> (\<forall>x\<in>set (buf @ [v]). stamp x = instant ?cd)"
        using un cnz by blast
    qed
    have fl: "fst (flushes (v # vs) cd buf) @ [snd (flushes (v # vs) cd buf)] = X"
      using False by (simp add: Let_def X_def)
    have cdle: "buf \<noteq> [] \<longrightarrow> instant cd \<le> instant ?cd"
      using Cons.prems(4) by simp
    have m: "\<forall>g\<in>set X. (\<forall>x\<in>set (snd g). stamp x = instant (fst g)) \<and>
                        (buf \<noteq> [] \<longrightarrow> instant cd \<le> instant (fst g))"
    proof
      fix g assume g: "g \<in> set X"
      with ih have a: "\<forall>x\<in>set (snd g). stamp x = instant (fst g)"
        and b: "instant ?cd \<le> instant (fst g)" by simp_all
      from b cdle have "buf \<noteq> [] \<longrightarrow> instant cd \<le> instant (fst g)" by (meson order_trans)
      with a show "(\<forall>x\<in>set (snd g). stamp x = instant (fst g)) \<and>
                   (buf \<noteq> [] \<longrightarrow> instant cd \<le> instant (fst g))"
        by blast
    qed
    show ?thesis unfolding fl using ih m by blast
  qed
qed

lemma length_groupTags: "length (groupTags n G) = length (concat G)"
  by (induction G arbitrary: n) simp_all

lemma groupTags_rel:
  assumes "\<forall>g\<in>set G. \<forall>x\<in>set (snd g). f x = key g"
  shows "list_all2 (\<lambda>x k. n \<le> k \<and> k < n + length G \<and> f x = key (G ! (k - n)))
           (concat (map snd G)) (groupTags n (map snd G))"
  using assms
proof (induction G arbitrary: n)
  case Nil
  then show ?case by simp
next
  case (Cons g G)
  have hd: "list_all2 (\<lambda>x k. n \<le> k \<and> k < n + length (g # G) \<and> f x = key ((g # G) ! (k - n)))
              (snd g) (replicate (length (snd g)) n)"
    using Cons.prems by (simp add: list_all2_conv_all_nth)
  have "list_all2 (\<lambda>x k. Suc n \<le> k \<and> k < Suc n + length G \<and> f x = key (G ! (k - Suc n)))
          (concat (map snd G)) (groupTags (Suc n) (map snd G))"
    by (rule Cons.IH) (use Cons.prems in simp)
  then have tl: "list_all2 (\<lambda>x k. n \<le> k \<and> k < n + length (g # G) \<and> f x = key ((g # G) ! (k - n)))
          (concat (map snd G)) (groupTags (Suc n) (map snd G))"
  proof (rule list_all2_mono)
    fix x k assume a: "Suc n \<le> k \<and> k < Suc n + length G \<and> f x = key (G ! (k - Suc n))"
    then have "k - n = Suc (k - Suc n)" by arith
    with a show "n \<le> k \<and> k < n + length (g # G) \<and> f x = key ((g # G) ! (k - n))" by simp
  qed
  from hd tl show ?case by (simp add: list_all2_appendI)
qed

section \<open>Sorting\<close>

lemma mset_insertBy: "mset (insertBy lt x ys) = add_mset x (mset ys)"
  by (induction ys) simp_all

lemma set_insertBy: "set (insertBy lt x ys) = insert x (set ys)"
  by (induction ys) auto

lemma insert_all:
  "mset (foldl (\<lambda>acc x. insertBy lt x acc) acc xs) = mset acc + mset xs"
  by (induction xs arbitrary: acc) (simp_all add: mset_insertBy)

text \<open>Insertion sort keeps the contract of \<^verbatim>\<open>sort.Slice\<close> for every comparison that
  meets its requirement.\<close>

lemma sortedBy_insertBy:
  assumes "lessRequirement lt" and "sortedBy lt ys"
  shows "sortedBy lt (insertBy lt x ys)"
  using assms(2)
proof (induction ys)
  case Nil
  then show ?case by (simp add: sortedBy_def)
next
  case (Cons y ys)
  have irr: "\<not> lt x x" and tr: "\<And>a b c. lt a b \<Longrightarrow> lt b c \<Longrightarrow> lt a c"
    and ntr: "\<And>a b c. \<not> lt a b \<Longrightarrow> \<not> lt b c \<Longrightarrow> \<not> lt a c"
    using assms(1) unfolding lessRequirement_def by blast+
  have asym: "lt a b \<Longrightarrow> \<not> lt b a" for a b
    using assms(1) unfolding lessRequirement_def by blast
  from Cons.prems have ys: "sortedBy lt ys" and y: "\<forall>z\<in>set ys. \<not> lt z y"
    by (simp_all add: sortedBy_def)
  show ?case
  proof (cases "lt x y")
    case True
    have "\<not> lt y x" using True by (rule asym)
    moreover have "\<forall>z\<in>set ys. \<not> lt z x"
    proof
      fix z assume "z \<in> set ys"
      with y have "\<not> lt z y" by simp
      show "\<not> lt z x"
      proof
        assume "lt z x"
        from this True have "lt z y" by (rule tr)
        with \<open>\<not> lt z y\<close> show False by simp
      qed
    qed
    ultimately show ?thesis using True Cons.prems by (simp add: sortedBy_def)
  next
    case False
    have "sortedBy lt (insertBy lt x ys)" by (rule Cons.IH[OF ys])
    with False y show ?thesis by (simp add: sortedBy_def set_insertBy)
  qed
qed

lemma sortedBy_Nil: "sortedBy lt []"
  by (simp add: sortedBy_def)

lemma insert_all_sorted:
  "lessRequirement lt \<Longrightarrow> sortedBy lt acc \<Longrightarrow>
   sortedBy lt (foldl (\<lambda>acc x. insertBy lt x acc) acc xs)"
  by (induction xs arbitrary: acc) (simp_all add: sortedBy_insertBy)

lemma insertionSort_sorts:
  "mset (insertionSort lt xs) = mset xs"
  "lessRequirement lt \<Longrightarrow> sortedBy lt (insertionSort lt xs)"
  by (simp_all add: insertionSort_def insert_all insert_all_sorted sortedBy_Nil)

lemma okEnv_contract: "sortSliceContract okEnv"
  by (simp add: sortSliceContract_def sortsFor_def okEnv_def insertionSort_sorts)

lemma partEnv_contract: "sortSliceContract partEnv"
  by (simp add: sortSliceContract_def sortsFor_def partEnv_def okEnv_def insertionSort_sorts)

text \<open>The comparison of the program meets the requirement, and a slice sorted by it is in
  ascending order of the instants.\<close>

lemma lessLastModified_requirement: "lessRequirement lessLastModified"
  by (auto simp: lessRequirement_def lessLastModified_def Before_def)

lemma sortedBy_lessLastModified:
  "sortedBy lessLastModified ys \<longleftrightarrow> sorted (map stamp ys)"
  by (induction ys) (auto simp: sortedBy_def lessLastModified_def Before_def stamp_def not_less)

lemma contract_lessLastModified:
  "sortSliceContract e \<Longrightarrow> sortsFor e lessLastModified"
  by (simp add: sortSliceContract_def lessLastModified_requirement)

lemma listVersions_eq:
  "listVersions e repoPath objects acc w =
     (acc @ concat (map (versionsFor e repoPath) objects),
      w\<lparr>out := out w @ concat (map (listingLog e) objects),
        calls := calls w @ map (\<lambda>s3obj. CallListObjectVersions (oBucket s3obj) (oKey s3obj)) objects\<rparr>)"
proof (induction objects arbitrary: acc w)
  case Nil
  then show ?case by simp
next
  case (Cons s3obj objects)
  show ?case
    by (cases "s3_ListObjectVersions e (oBucket s3obj) (oKey s3obj)")
      (simp_all add: Cons.IH versionsFor_def listingLog_def say_def record_call_def)
qed

section \<open>Evaluation of the concrete inputs\<close>

lemmas run_defs = replayS3Changes_def okEnv_def ver_def emptyWorld_def zeroTime_def utc_def After_def
  applyGitChanges_def commitStaged_def downloadFile_def toLocalPath_def toBasenamePath_def
  say_def record_call_def dirOf_def commitMsg_def author_def Let_def scenario_def

lemmas eval_defs = run_defs scenario4_def getFailEnv_def zeroScenario_def newCommits_def
  failsBeforeCommit_def buffersOf_def bufferIndex_def versionOf_def ToString_def ToTime_def
  stamp_def Equal_def zeroOffset_def offsetScenario_def zeroLastScenario_def

lemma scenario4_sorted: "sorted (map stamp scenario4)"
  by (simp add: eval_defs)

lemma getFail_prefix:
  "applyAll getFailEnv (take 1 (map snd (fst (flushes scenario4 zeroTime [])))) emptyWorld =
     (True, snd (applyAll getFailEnv [[ver ''a.txt'' ''v1'' 1, ver ''b.txt'' ''v1'' 1]] emptyWorld))"
  by (simp add: eval_defs)

lemma getFail_fails:
  "fst (applyGitChanges getFailEnv (map snd (fst (flushes scenario4 zeroTime [])) ! 1)
     (snd (applyAll getFailEnv [[ver ''a.txt'' ''v1'' 1, ver ''b.txt'' ''v1'' 1]] emptyWorld))) \<noteq> None"
  by (simp add: eval_defs)

lemma scenario4_nonzero: "\<forall>v\<in>set scenario4. LastModified v \<noteq> zeroTime"
  by (simp add: eval_defs)

text \<open>The bucket of thirteen objects: what the listing enumerates and what the sort of
  the library makes of it, for any generator.\<close>

lemma queryS3Versions_result:
  "fst (fst (queryS3Versions e objects repoPath w)) =
     sort_Slice e lessLastModified (fst (listVersions e repoPath objects [] w))"
  by (simp add: queryS3Versions_def case_prod_beta)

lemmas thirteen_defs = thirteenVersions_def thirteenPartitioned_def thirteenSorted_def
  thirteenKeys_def versionAt_def ver_def utc_def lessLastModified_def Before_def dataLess_def

lemma thirteen_listed:
  "fst (listVersions (goEnv next) ''/out'' thirteenObjects [] emptyWorld) = thirteenVersions"
  by (simp add: listVersions_eq goEnv_def okEnv_def thirteenObjects_def thirteenKeys_def
      thirteenVersions_def versionAt_def versionsFor_def versionOf_def ToString_def ToTime_def
      ver_def)

lemma thirteen_choosePivot:
  "choosePivot_func lessLastModified 0 13 thirteenVersions = (6, increasingHint)"
  by (simp add: choosePivot_func_def median_func_def order2_func_def Let_def thirteen_defs)

lemma thirteen_partialInsertionSort:
  "partialInsertionSort_func lessLastModified 0 13 thirteenVersions = (False, thirteenVersions)"
  by (simp add: partialInsertionSort_func_def scanSorted.simps Let_def eval_nat_numeral
      thirteen_defs)

lemma thirteen_partition:
  "partition_func lessLastModified 0 13 6 thirteenVersions = (thirteenPartitioned, 0, True)"
  by (simp add: partition_func_def scanUp.simps scanDown.simps dataSwap_def Let_def
      thirteen_defs)

lemma thirteen_insertionSort:
  "insertionSort_func lessLastModified (Suc 0) 13 thirteenPartitioned = thirteenSorted"
  by (simp add: insertionSort_func_def insertionLoop.simps insertDown.simps dataSwap_def
      thirteen_defs)

lemma thirteen_first_round:
  "pdqIteration next lessLastModified 0 13 4 True True thirteenVersions =
     Partitioned 0 True 4 thirteenPartitioned"
  by (simp add: pdqIteration_def thirteen_choosePivot thirteen_partialInsertionSort
      thirteen_partition Let_def)

lemma thirteen_left:
  "pdqsort_func next lessLastModified 0 0 4 True True thirteenPartitioned = thirteenPartitioned"
  by (subst pdqsort_func.simps)
    (simp add: pdqIteration_def insertionSort_func_def insertionLoop.simps)

lemma thirteen_right:
  "pdqsort_func next lessLastModified (Suc 0) 13 4 False True thirteenPartitioned =
     thirteenSorted"
  by (subst pdqsort_func.simps) (simp add: pdqIteration_def thirteen_insertionSort)

lemma thirteen_sorted: "sort_Slice_func next lessLastModified thirteenVersions = thirteenSorted"
proof -
  have l: "length thirteenVersions = 13" by (simp add: thirteenVersions_def thirteenKeys_def)
  have b: "bits_Len 13 = 4" by (simp add: bits_Len.simps)
  have "pdqsort_func next lessLastModified 0 13 4 True True thirteenVersions = thirteenSorted"
    by (subst pdqsort_func.simps)
      (simp add: thirteen_first_round thirteen_left thirteen_right)
  then show ?thesis by (simp add: sort_Slice_func_def l b)
qed

lemma goEnv_sort: "sort_Slice (goEnv next) = sort_Slice_func next"
  by (simp add: goEnv_def)

section \<open>The claims\<close>

text \<open>
  C1 (the claim fails on the code): the buffer that is pending when the input is exhausted
  should be flushed and committed, so that the scenario gives two commits. The loop ends
  with that buffer still pending: in the scenario the run fetches and commits only the two
  versions of time 1, and \<open>a.txt\<close> of time 2 stays in the buffer, neither fetched nor
  committed; so does the whole program on a bucket with these three versions.
\<close>

theorem scenario_last_buffer_never_committed:
  "fst (replayLoop okEnv scenario zeroTime [] emptyWorld) = Exhausted (utc 2) [ver ''a.txt'' ''v2'' 2] \<and>
   map Staged (commits (replayS3Changes okEnv scenario emptyWorld)) = [[''a.txt'', ''b.txt'']] \<and>
   map (\<lambda>c. When (Author c)) (commits (replayS3Changes okEnv scenario emptyWorld)) = [utc 1] \<and>
   calls (replayS3Changes okEnv scenario emptyWorld) =
     [CallGetObject ''b'' ''a.txt'' ''v1'', CallGetObject ''b'' ''b.txt'' ''v1''] \<and>
   fst (fst (queryS3Versions okEnv demoObjects ''/out'' emptyWorld)) = scenario \<and>
   map Staged (commits (snd (main okEnv demoFlags emptyWorld))) = [[''a.txt'', ''b.txt'']]"
  by (simp add: run_defs main_def runPipeline_def queryS3Bucket_def queryS3Versions_def
      getS3Client_def demoFlags_def demoObjects_def insertionSort_def lessLastModified_def
      Before_def versionOf_def ToString_def ToTime_def)

text \<open>
  C2 (the claim fails on the code): a failed listing of the bucket should abort the run.
  \<^verbatim>\<open>main\<close> has no return there: the failure is reported, its error is overwritten by the
  next assignment, and the run goes on with no objects through \<^verbatim>\<open>queryS3Versions\<close> and
  \<^verbatim>\<open>replayS3Changes\<close> to the end of \<^verbatim>\<open>main\<close>, where it issues no further call.
\<close>

theorem listing_failure_runs_to_end:
  "fst (main noListEnv demoFlags emptyWorld) = ReturnEnd \<and>
   out (snd (main noListEnv demoFlags emptyWorld)) =
     [Printf ''ListObjectsV2 failed while querying: %s'' [AStr ''b''],
      ErrorMessage (AErr (Error ''AccessDenied''))] \<and>
   calls (snd (main noListEnv demoFlags emptyWorld)) =
     [CallPlainOpen ''/out/b'', CallPlainInit ''/out/b'', CallLoadDefaultConfig None,
      CallListObjectsV2 ''b'']"
  by (simp add: main_def runPipeline_def queryS3Bucket_def queryS3Versions_def getS3Client_def
      noListEnv_def demoFlags_def insertionSort_def run_defs)

text \<open>
  C3, as claimed: the sorted output should keep records of equal lastModified in their
  order of enumeration. The program sorts with \<^verbatim>\<open>sort.Slice\<close>, which is not stable. A
  bucket lists thirteen objects \<open>k00\<close>, ..., \<open>k12\<close> of one version each, all of time 1 but
  \<open>k11\<close> of time 2. The sort of the library takes the element in the middle, \<open>k06\<close>, as
  pivot and swaps it to the front, past \<open>k00\<close>, ..., \<open>k05\<close> of the same time, where it
  stays: in the output \<open>k06\<close> comes first and \<open>k00\<close> seventh. (The run draws no
  pseudo-random number, so the result is the same for every generator.)
\<close>

theorem sort_Slice_reorders_ties:
  "\<forall>next.
     map (\<lambda>v. (Key v, stamp v))
       (fst (listVersions (goEnv next) ''/out'' thirteenObjects [] emptyWorld)) =
       [(''k00'', 1), (''k01'', 1), (''k02'', 1), (''k03'', 1), (''k04'', 1), (''k05'', 1),
        (''k06'', 1), (''k07'', 1), (''k08'', 1), (''k09'', 1), (''k10'', 1), (''k11'', 2),
        (''k12'', 1)] \<and>
     map Key (fst (fst (queryS3Versions (goEnv next) thirteenObjects ''/out'' emptyWorld))) =
       [''k06'', ''k01'', ''k02'', ''k03'', ''k04'', ''k05'', ''k00'', ''k07'', ''k08'', ''k09'',
        ''k10'', ''k12'', ''k11'']"
  by (simp add: queryS3Versions_result thirteen_listed thirteen_sorted goEnv_sort)
    (simp add: thirteenVersions_def thirteenSorted_def thirteenKeys_def versionAt_def
      ver_def stamp_def utc_def)

text \<open>
  C3, amended: whatever routine keeps the contract of \<^verbatim>\<open>sort.Slice\<close>, the version lister
  returns the enumerated records rearranged (the same multiset) in ascending order of
  lastModified. The order of records of equal lastModified is not determined.
\<close>

theorem sorted_ascending:
  assumes "sortSliceContract e"
  shows "sorted (map stamp (fst (fst (queryS3Versions e objects repoPath w)))) \<and>
         mset (fst (fst (queryS3Versions e objects repoPath w))) =
           mset (fst (listVersions e repoPath objects [] w))"
proof -
  have req: "lessRequirement lessLastModified"
    by (auto simp: lessRequirement_def lessLastModified_def Before_def)
  from assms req have s: "sortsFor e lessLastModified"
    by (simp add: sortSliceContract_def)
  let ?xs = "fst (listVersions e repoPath objects [] w)"
  have r: "fst (fst (queryS3Versions e objects repoPath w)) = sort_Slice e lessLastModified ?xs"
    by (simp add: queryS3Versions_def case_prod_beta)
  from s have m: "mset (sort_Slice e lessLastModified ?xs) = mset ?xs"
    and b: "sorted_wrt (\<lambda>a b. \<not> lessLastModified b a) (sort_Slice e lessLastModified ?xs)"
    by (simp_all add: sortsFor_def sortedBy_def)
  have "sorted_wrt (\<lambda>a b. \<not> lessLastModified b a) ys \<Longrightarrow> sorted (map stamp ys)" for ys
    by (induction ys) (auto simp: lessLastModified_def Before_def stamp_def not_less)
  with b have "sorted (map stamp (sort_Slice e lessLastModified ?xs))" by blast
  with m r show ?thesis by simp
qed

text \<open>C3, witness: insertion sort keeps the contract; the bucket of the scenario.\<close>

theorem sorted_ascending_witness:
  "sortSliceContract okEnv \<and>
   fst (fst (queryS3Versions okEnv demoObjects ''/out'' emptyWorld)) =
     [ver ''a.txt'' ''v1'' 1, ver ''b.txt'' ''v1'' 1, ver ''a.txt'' ''v2'' 2]"
proof -
  have e: ?thesis
    by (simp add: okEnv_contract)
      (simp add: okEnv_def demoObjects_def queryS3Versions_def
        insertionSort_def lessLastModified_def Before_def versionOf_def ToString_def ToTime_def
        ver_def record_call_def zeroTime_def utc_def)
  show ?thesis
    by (rule conjunct2 [OF conjI [OF sorted_ascending [OF okEnv_contract, of demoObjects "''/out''" emptyWorld] e]])
qed

text \<open>
  C4, as claimed: in a sorted sequence two records of distinct lastModified should land in
  distinct changesets. The loop reads a boundary equal to the zero time as "no boundary
  yet": after a record of the zero time the next record sets the boundary again and joins
  the same buffer. Here \<open>z.txt\<close> (zero time) and \<open>b.txt\<close> (time 5) land in buffer 0 and are
  committed together.
\<close>

theorem zero_time_joins_next_buffer:
  "sorted (map stamp zeroScenario) \<and>
   bufferIndex zeroScenario = [0, 0, 1] \<and>
   \<not> Equal (LastModified (zeroScenario ! 0)) (LastModified (zeroScenario ! 1)) \<and>
   map Staged (commits (replayS3Changes okEnv zeroScenario emptyWorld)) = [[''z.txt'', ''b.txt'']]"
  by (simp add: eval_defs)

text \<open>
  C4, amended: for every sorted sequence of records none of which has the zero time, the
  buffers of the scan (those the loop hands to \<^verbatim>\<open>applyGitChanges\<close>, and the one pending
  when the input is exhausted) split the sequence in order; two records land in the same
  buffer exactly when their lastModified are equal (the same instant); and a record starts
  a new buffer exactly when its lastModified is strictly after that of its predecessor,
  which is the boundary then. Whether the pending buffer is committed is not part of this
  statement.
\<close>

theorem same_buffer_iff_same_time:
  assumes "sorted (map stamp versions)"
    and "\<forall>v\<in>set versions. LastModified v \<noteq> zeroTime"
  shows "replayLoop e versions zeroTime [] w =
           loopResult (butlast (buffersOf versions), last (buffersOf versions))
             (applyAll e (map snd (butlast (buffersOf versions))) w) \<and>
         concat (map snd (buffersOf versions)) = versions \<and>
         length (bufferIndex versions) = length versions \<and>
         (\<forall>i<length versions. \<forall>j<length versions.
            (bufferIndex versions ! i = bufferIndex versions ! j) =
            Equal (LastModified (versions ! i)) (LastModified (versions ! j))) \<and>
         (\<forall>i. Suc i < length versions \<longrightarrow>
            (bufferIndex versions ! Suc i \<noteq> bufferIndex versions ! i) =
            After (LastModified (versions ! Suc i)) (LastModified (versions ! i)))"
proof -
  let ?G = "buffersOf versions"
  let ?t = "bufferIndex versions"
  let ?key = "\<lambda>g. instant (fst g)"
  have G: "?G = fst (flushes versions zeroTime []) @ [snd (flushes versions zeroTime [])]"
    by (simp add: buffersOf_def case_prod_beta)
  have cc: "concat (map snd ?G) = versions"
    using flushes_concat[of versions zeroTime "[]"] by (simp add: G)
  have un: "sorted_wrt (<) (map ?key ?G) \<and> (\<forall>g\<in>set ?G. \<forall>x\<in>set (snd g). stamp x = ?key g)"
    using flushes_uniform[of "[]" versions zeroTime] assms unfolding G by simp
  have len: "length ?t = length versions"
    using length_groupTags[of 0 "map snd ?G"] cc by (simp add: bufferIndex_def)
  have rel: "list_all2 (\<lambda>x k. 0 \<le> k \<and> k < 0 + length ?G \<and> stamp x = ?key (?G ! (k - 0)))
               versions ?t"
    using groupTags_rel[of ?G stamp ?key 0] un cc by (simp add: bufferIndex_def)
  have pt: "?t ! i < length ?G \<and> stamp (versions ! i) = ?key (?G ! (?t ! i))"
    if "i < length versions" for i
    using list_all2_nthD[OF rel that] by simp
  have inj: "(?key (?G ! k) = ?key (?G ! l)) = (k = l)" if "k < length ?G" "l < length ?G" for k l
  proof -
    have "distinct (map ?key ?G)" using un strict_sorted_iff by blast
    then show ?thesis using that nth_eq_iff_index_eq[of "map ?key ?G" k l] by simp
  qed
  have iff: "(?t ! i = ?t ! j) = Equal (LastModified (versions ! i)) (LastModified (versions ! j))"
    if "i < length versions" "j < length versions" for i j
    using pt[OF that(1)] pt[OF that(2)] inj[of "?t ! i" "?t ! j"]
    by (auto simp: Equal_def stamp_def)
  have adj: "(?t ! Suc i \<noteq> ?t ! i) =
             After (LastModified (versions ! Suc i)) (LastModified (versions ! i))"
    if "Suc i < length versions" for i
  proof -
    have "stamp (versions ! i) \<le> stamp (versions ! Suc i)"
      using assms(1) that by (simp add: sorted_iff_nth_Suc)
    moreover have "(?t ! Suc i = ?t ! i) =
                   Equal (LastModified (versions ! Suc i)) (LastModified (versions ! i))"
      using iff[of "Suc i" i] that by simp
    ultimately show ?thesis by (auto simp: After_def Equal_def stamp_def)
  qed
  have run: "replayLoop e versions zeroTime [] w =
           loopResult (butlast ?G, last ?G) (applyAll e (map snd (butlast ?G)) w)"
    by (simp add: G replayLoop_flushes)
  from run cc len iff adj show ?thesis by blast
qed

text \<open>C4, witness: the scenario followed by a record of time 3.\<close>

theorem same_buffer_iff_same_time_witness:
  "sorted (map stamp scenario4) \<and>
   list_all (\<lambda>v. LastModified v \<noteq> zeroTime) scenario4 \<and>
   map snd (buffersOf scenario4) =
     [[ver ''a.txt'' ''v1'' 1, ver ''b.txt'' ''v1'' 1], [ver ''a.txt'' ''v2'' 2],
      [ver ''c.txt'' ''v1'' 3]] \<and>
   bufferIndex scenario4 = [0, 0, 1, 2]"
proof -
  have e: ?thesis by (simp add: eval_defs)
  show ?thesis
    by (rule conjunct2 [OF conjI [OF same_buffer_iff_same_time
      [OF scenario4_sorted scenario4_nonzero, where e = okEnv and w = emptyWorld] e]])
qed

text \<open>
  C5: for a sorted input, the commits a run adds to the history correspond, in order, to
  the first buffers the loop hands to \<^verbatim>\<open>applyGitChanges\<close>: each carries the lastModified
  of the last member of its buffer in its message and as the timestamp of its author, this
  timestamp equals the boundary of the buffer (the same instant), and the author
  timestamps of the added commits are non-decreasing.
\<close>

theorem commit_dates:
  assumes "sorted (map stamp versions)"
  shows "commits (replayS3Changes e versions w) =
           commits w @ newCommits w (replayS3Changes e versions w) \<and>
         length (newCommits w (replayS3Changes e versions w))
           \<le> length (fst (flushes versions zeroTime [])) \<and>
         list_all2 (\<lambda>c g. Message c = commitMsg e (LastModified (last (snd g))) \<and>
                           When (Author c) = LastModified (last (snd g)) \<and>
                           Equal (When (Author c)) (fst g))
           (newCommits w (replayS3Changes e versions w))
           (take (length (newCommits w (replayS3Changes e versions w)))
             (fst (flushes versions zeroTime []))) \<and>
         sorted (map (\<lambda>c. instant (When (Author c)))
           (newCommits w (replayS3Changes e versions w)))"
proof -
  let ?gs = "fst (flushes versions zeroTime [])"
  let ?new = "newCommits w (replayS3Changes e versions w)"
  let ?key = "\<lambda>g. instant (fst g)"
  from replay_new_commits[of versions e w] obtain k where k: "k \<le> length ?gs"
    and c: "commits (replayS3Changes e versions w) =
              commits w @ take k (commitsFor e (index w) (map snd ?gs))"
    by blast
  have new: "?new = take k (commitsFor e (index w) (map snd ?gs))"
    by (simp add: newCommits_def c)
  have len: "length ?new = k" using k by (simp add: new)
  have fs: "sorted_wrt (<) (map ?key ?gs) \<and>
            (\<forall>g\<in>set ?gs. snd g \<noteq> [] \<and> instant (fst g) = stamp (last (snd g)))"
    using flushes_sorted[of "[]" versions zeroTime] assms by simp
  have nth: "Message (?new ! i) = commitMsg e (LastModified (last (snd (?gs ! i)))) \<and>
             When (Author (?new ! i)) = LastModified (last (snd (?gs ! i))) \<and>
             Equal (When (Author (?new ! i))) (fst (?gs ! i))" if i: "i < k" for i
  proof -
    have ig: "i < length ?gs" using i k by simp
    then have mem: "?gs ! i \<in> set ?gs" by simp
    with fs have ne: "snd (?gs ! i) \<noteq> []"
      and b: "instant (fst (?gs ! i)) = stamp (last (snd (?gs ! i)))"
      by blast+
    have "?new ! i = commitOf e (if i = 0 then index w else []) (snd (?gs ! i))"
      using i ig by (simp add: new commitsFor_nth)
    with ne b show ?thesis by (simp add: commitOf_def dateOf_def author_def Equal_def stamp_def)
  qed
  have l2: "list_all2 (\<lambda>c g. Message c = commitMsg e (LastModified (last (snd g))) \<and>
                           When (Author c) = LastModified (last (snd g)) \<and>
                           Equal (When (Author c)) (fst g)) ?new (take (length ?new) ?gs)"
  proof (rule list_all2_all_nthI)
    show "length ?new = length (take (length ?new) ?gs)" using k len by simp
  next
    fix n assume "n < length ?new"
    then have n: "n < k" using len by simp
    then have t: "take (length ?new) ?gs ! n = ?gs ! n" using len by simp
    show "Message (?new ! n) =
        commitMsg e (LastModified (last (snd (take (length ?new) ?gs ! n)))) \<and>
        When (Author (?new ! n)) = LastModified (last (snd (take (length ?new) ?gs ! n))) \<and>
        Equal (When (Author (?new ! n))) (fst (take (length ?new) ?gs ! n))"
      unfolding t by (rule nth[OF n])
  qed
  have "map (\<lambda>c. instant (When (Author c))) ?new = take k (map ?key ?gs)"
  proof (rule nth_equalityI)
    show "length (map (\<lambda>c. instant (When (Author c))) ?new) = length (take k (map ?key ?gs))"
      using len k by simp
  next
    fix i assume "i < length (map (\<lambda>c. instant (When (Author c))) ?new)"
    then have i: "i < k" using len by simp
    from nth[OF i] have "Equal (When (Author (?new ! i))) (fst (?gs ! i))" by blast
    then have "instant (When (Author (?new ! i))) = ?key (?gs ! i)"
      by (simp add: Equal_def)
    with i k len
    show "map (\<lambda>c. instant (When (Author c))) ?new ! i = take k (map ?key ?gs) ! i"
      by simp
  qed
  moreover have "sorted (take k (map ?key ?gs))"
    using fs by (intro sorted_wrt_take strict_sorted_imp_sorted) simp
  ultimately have "sorted (map (\<lambda>c. instant (When (Author c))) ?new)" by simp
  moreover have "commits (replayS3Changes e versions w) = commits w @ ?new"
    by (simp add: new c)
  ultimately show ?thesis using l2 len k by simp
qed

text \<open>C5, witness: the scenario followed by a record of time 3, every call succeeding.\<close>

theorem commit_dates_witness:
  "sorted (map stamp scenario4) \<and>
   map (\<lambda>c. (Message c, When (Author c)))
     (newCommits emptyWorld (replayS3Changes okEnv scenario4 emptyWorld)) =
     [(''Modification on I'', utc 1), (''Modification on II'', utc 2)] \<and>
   map (\<lambda>g. (fst g, LastModified (last (snd g)))) (fst (flushes scenario4 zeroTime [])) =
     [(utc 1, utc 1), (utc 2, utc 2)]"
proof -
  have e: ?thesis by (simp add: eval_defs eval_nat_numeral)
  show ?thesis
    by (rule conjunct2 [OF conjI [OF commit_dates [OF scenario4_sorted, where e = okEnv and w = emptyWorld] e]])
qed

text \<open>
  C6, as claimed: when committing a changeset fails, that changeset should have produced
  no commit. \<^verbatim>\<open>applyGitChanges\<close> also fails when \<^verbatim>\<open>Repository.CommitObject\<close> does, after
  \<^verbatim>\<open>Tree.Commit\<close> has created the commit, and nothing removes a commit: here the first
  changeset fails in this way, the run ends with the error reported, and the history holds
  the commit of that changeset.
\<close>

theorem failed_lookup_leaves_commit:
  "fst (applyGitChanges lookupFailEnv [ver ''a.txt'' ''v1'' 1, ver ''b.txt'' ''v1'' 1] emptyWorld) =
     Some (Error ''object not found'') \<and>
   map Staged (commits (replayS3Changes lookupFailEnv scenario4 emptyWorld)) =
     [[''a.txt'', ''b.txt'']] \<and>
   out (replayS3Changes lookupFailEnv scenario4 emptyWorld) =
     [Printf ''Error comitting objects to repo'' [], ErrorMessage (AErr (Error ''object not found'')),
      Printf ''Error applying Git changes for %d objects'' [ANat 2],
      ErrorMessage (AErr (Error ''object not found''))]"
  by (simp add: lookupFailEnv_def eval_defs)

text \<open>
  C6, amended: let \<open>gs\<close> be the buffers the loop hands to \<^verbatim>\<open>applyGitChanges\<close>, let the first
  \<open>K\<close> of them succeed, and let \<^verbatim>\<open>applyGitChanges\<close> return an error for the next one,
  \<open>gs ! K\<close>. Then the run ends in the state that failure left, with the error reported last,
  and the history holds the commits it started with, the \<open>K\<close> commits of the earlier
  buffers and nothing of the later ones. Of the failing buffer it holds nothing when the
  failure came before its commit existed (\<^verbatim>\<open>downloadFile\<close> returned an error for a member:
  the fetch request, the directory, the creation of the file or the write failed; or
  staging a member failed; or \<^verbatim>\<open>Tree.Commit\<close> failed), so that exactly \<open>K\<close> commits were
  added; it holds the commit of the failing buffer when the failure is that of
  \<^verbatim>\<open>Repository.CommitObject\<close>.
\<close>

theorem abort_at_first_failure:
  assumes gs: "gs = map snd (fst (flushes versions zeroTime []))"
    and K: "K < length gs"
    and ok: "applyAll e (take K gs) w = (True, wK)"
    and fail: "fst (applyGitChanges e (gs ! K) wK) \<noteq> None"
  shows "replayS3Changes e versions w =
           say [Printf ''Error applying Git changes for %d objects'' [ANat (length (gs ! K))],
                ErrorMessage (AErr (the (fst (applyGitChanges e (gs ! K) wK))))]
             (snd (applyGitChanges e (gs ! K) wK)) \<and>
         commits (replayS3Changes e versions w) =
           commits w @ commitsFor e (index w) (take K gs) @
           (if failsBeforeCommit e (gs ! K) wK then [] else [commitOf e (index wK) (gs ! K)]) \<and>
         (failsBeforeCommit e (gs ! K) wK \<longrightarrow>
            length (newCommits w (replayS3Changes e versions w)) = K)"
proof -
  obtain r wf where a: "applyGitChanges e (gs ! K) wK = (r, wf)"
    by (cases "applyGitChanges e (gs ! K) wK")
  from fail a obtain err where r: "r = Some err" by auto
  have cf: "commits wf = commits wK @
      (if failsBeforeCommit e (gs ! K) wK then [] else [commitOf e (index wK) (gs ! K)])"
  proof (cases "failsBeforeCommit e (gs ! K) wK")
    case True
    from failsBeforeCommit_fails[OF True] a show ?thesis using True by simp
  next
    case False
    from applyGitChanges_late_failure[OF a[unfolded r] False] show ?thesis using False by simp
  qed
  have split: "gs = take K gs @ (gs ! K) # drop (Suc K) gs"
    using K by (simp add: id_take_nth_drop)
  have "applyAll e gs w = applyAll e ((gs ! K) # drop (Suc K) gs) wK"
    using applyAll_append[of e "take K gs" "(gs ! K) # drop (Suc K) gs" w] ok split by simp
  also have "\<dots> = (False, say [Printf ''Error applying Git changes for %d objects''
                                [ANat (length (gs ! K))], ErrorMessage (AErr err)] wf)"
    using a r by simp
  finally have run: "replayS3Changes e versions w =
      say [Printf ''Error applying Git changes for %d objects'' [ANat (length (gs ! K))],
           ErrorMessage (AErr err)] wf"
    by (simp add: replayS3Changes_applyAll gs)
  have cK: "commits wK = commits w @ commitsFor e (index w) (take K gs)"
    by (rule applyAll_ok[OF ok])
  have "length (commitsFor e (index w) (take K gs)) = K" using K by simp
  with run cK cf a r show ?thesis by (simp add: newCommits_def)
qed

text \<open>C6, witness: the second buffer of the extended scenario fails to download (\<open>K = 1\<close>).\<close>

theorem abort_at_first_failure_witness:
  "map snd (fst (flushes scenario4 zeroTime [])) =
     [[ver ''a.txt'' ''v1'' 1, ver ''b.txt'' ''v1'' 1], [ver ''a.txt'' ''v2'' 2]] \<and>
   fst (applyAll getFailEnv [[ver ''a.txt'' ''v1'' 1, ver ''b.txt'' ''v1'' 1]] emptyWorld) \<and>
   failsBeforeCommit getFailEnv [ver ''a.txt'' ''v2'' 2]
     (snd (applyAll getFailEnv [[ver ''a.txt'' ''v1'' 1, ver ''b.txt'' ''v1'' 1]] emptyWorld)) \<and>
   map Staged (commits (replayS3Changes getFailEnv scenario4 emptyWorld)) = [[''a.txt'', ''b.txt'']] \<and>
   last (out (replayS3Changes getFailEnv scenario4 emptyWorld)) =
     ErrorMessage (AErr (Error ''NoSuchVersion''))"
proof -
  have e: ?thesis by (simp add: eval_defs)
  have k: "1 < length (map snd (fst (flushes scenario4 zeroTime [])))" by (simp add: eval_defs)
  show ?thesis
    by (rule conjunct2 [OF conjI [OF abort_at_first_failure [OF refl k getFail_prefix getFail_fails] e]])
qed

text \<open>
  C7: whichever objects fail to list their versions, the version lister returns no error,
  logs each failure, and returns in ascending order of lastModified exactly the versions
  of the objects whose listing succeeded: the versions of each such object are all in the
  result. \<^verbatim>\<open>sort.Slice\<close> is taken to keep its contract for the comparison of the program.
\<close>

theorem listing_failure_isolated:
  assumes "sortsFor e lessLastModified"
  shows "mset (fst (fst (queryS3Versions e objects repoPath w))) =
           mset (concat (map (versionsFor e repoPath) objects)) \<and>
         (\<forall>s3obj\<in>set objects. \<forall>versions.
            s3_ListObjectVersions e (oBucket s3obj) (oKey s3obj) = Inr versions \<longrightarrow>
            set (map (versionOf repoPath s3obj) versions)
              \<subseteq> set (fst (fst (queryS3Versions e objects repoPath w)))) \<and>
         sorted (map stamp (fst (fst (queryS3Versions e objects repoPath w)))) \<and>
         snd (fst (queryS3Versions e objects repoPath w)) = None \<and>
         out (snd (queryS3Versions e objects repoPath w)) =
           out w @ concat (map (listingLog e) objects)"
proof -
  let ?r = "fst (fst (queryS3Versions e objects repoPath w))"
  have m: "mset ?r = mset (concat (map (versionsFor e repoPath) objects))"
    and s: "sorted (map stamp ?r)"
    using assms sortedBy_lessLastModified
    by (simp_all add: queryS3Versions_def sortsFor_def listVersions_eq)
  have sub: "set (map (versionOf repoPath s3obj) versions) \<subseteq> set ?r"
    if "s3obj \<in> set objects" "s3_ListObjectVersions e (oBucket s3obj) (oKey s3obj) = Inr versions"
    for s3obj versions
  proof -
    have "set ?r = set (concat (map (versionsFor e repoPath) objects))"
      using m by (rule mset_eq_setD)
    moreover have "versionsFor e repoPath s3obj = map (versionOf repoPath s3obj) versions"
      using that(2) by (simp add: versionsFor_def)
    ultimately show ?thesis using that(1) by auto
  qed
  have o: "snd (fst (queryS3Versions e objects repoPath w)) = None"
    "out (snd (queryS3Versions e objects repoPath w)) = out w @ concat (map (listingLog e) objects)"
    by (simp_all add: queryS3Versions_def listVersions_eq)
  from m s sub o show ?thesis by blast
qed

text \<open>C7, witness: listing \<open>a.txt\<close> fails, the version of \<open>b.txt\<close> is returned.\<close>

theorem listing_failure_isolated_witness:
  "sortsFor partEnv lessLastModified \<and>
   fst (queryS3Versions partEnv demoObjects ''/out'' emptyWorld) = ([ver ''b.txt'' ''v1'' 1], None) \<and>
   out (snd (queryS3Versions partEnv demoObjects ''/out'' emptyWorld)) =
     [Println (AStr ''Couldn't load default configuration. Have you set up your AWS account?''),
      ErrorMessage (AErr (Error ''SlowDown''))]"
proof -
  have c: "sortsFor partEnv lessLastModified"
    by (rule contract_lessLastModified [OF partEnv_contract])
  have e: ?thesis
    by (simp add: c)
      (simp add: partEnv_def okEnv_def demoObjects_def queryS3Versions_def
        insertionSort_def lessLastModified_def Before_def versionOf_def ToString_def ToTime_def
        ver_def record_call_def say_def emptyWorld_def zeroTime_def utc_def)
  show ?thesis
    by (rule conjunct2 [OF conjI [OF listing_failure_isolated [OF c, of demoObjects "''/out''" emptyWorld] e]])
qed

text \<open>
  C8 (the claim fails on the code): \<^verbatim>\<open>downloadFile\<close> should return an error when reading
  the response body fails. It reports the read error and goes on: the bytes read so far
  are written to the local path and the result is that of the write, here no error.
\<close>

theorem body_read_error_not_returned:
  "fst (downloadFile truncEnv (ver ''a.txt'' ''v1'' 1) emptyWorld) = None \<and>
   fsFiles (snd (downloadFile truncEnv (ver ''a.txt'' ''v1'' 1) emptyWorld)) ''/out/b/a.txt'' =
     Some ''par'' \<and>
   out (snd (downloadFile truncEnv (ver ''a.txt'' ''v1'' 1) emptyWorld)) =
     [Printf ''Couldn't read object body from %v@%v.'' [AStr ''a.txt'', AStr ''v1''],
      ErrorMessage (AErr (Error ''unexpected EOF''))]"
  by (simp add: truncEnv_def run_defs)

text \<open>
  C9, as claimed: without a bucket the program prints the usage, reports an error and
  leaves everything else alone. With the help flag set it prints the usage only: no error
  is reported.
\<close>

theorem missing_bucket_with_help_reports_no_error:
  "out (snd (main okEnv (demoFlags\<lparr>bucketFlag := [], helpFlag := True\<rparr>) emptyWorld)) = [Usage]"
  by (simp add: main_def demoFlags_def say_def emptyWorld_def)

text \<open>
  C9, amended: without a bucket the program prints the usage and returns with no other
  effect: no directory, file or repository is created or opened and no call is made. It
  reports the error after the usage unless the help flag is set.
\<close>

theorem missing_bucket_no_side_effects:
  assumes "bucketFlag fl = []"
  shows "main e fl w =
           (if helpFlag fl then (ReturnHelp, say [Usage] w)
            else (ReturnNoBucket,
                  say [Usage, ErrorMessage (AStr ''Error: Please provide an S3 bucket'')] w)) \<and>
         fsDirs (snd (main e fl w)) = fsDirs w \<and> fsFiles (snd (main e fl w)) = fsFiles w \<and>
         repos (snd (main e fl w)) = repos w \<and> commits (snd (main e fl w)) = commits w \<and>
         index (snd (main e fl w)) = index w \<and> calls (snd (main e fl w)) = calls w"
  using assms by (simp add: main_def say_def)

text \<open>C9, witness: the command line \<open>--output=/out\<close> with no bucket and no help flag.\<close>

theorem missing_bucket_no_side_effects_witness:
  "main okEnv (demoFlags\<lparr>bucketFlag := []\<rparr>) emptyWorld =
     (ReturnNoBucket,
      say [Usage, ErrorMessage (AStr ''Error: Please provide an S3 bucket'')] emptyWorld) \<and>
   calls (snd (main okEnv (demoFlags\<lparr>bucketFlag := []\<rparr>) emptyWorld)) = [] \<and>
   repos (snd (main okEnv (demoFlags\<lparr>bucketFlag := []\<rparr>) emptyWorld)) = {} \<and>
   fsDirs (snd (main okEnv (demoFlags\<lparr>bucketFlag := []\<rparr>) emptyWorld)) = {}"
  using missing_bucket_no_side_effects [of "demoFlags\<lparr>bucketFlag := []\<rparr>" okEnv emptyWorld]
  by (simp add: demoFlags_def emptyWorld_def)




end
